theory Spec2Isabelle
  imports Complex_Main "HOL-Library.FSet" "HOL-Library.Multiset" "HOL-Library.Log_Nat"
begin

section \<open>Python primitives used by website\_audit.py\<close>

text \<open>
  Strings are \<open>string\<close>, Python integers are \<open>int\<close>. A Python float is an IEEE 754
  binary64 number; a finite one is given by its exact value, a rational, and the type
  \<open>pyfloat\<close> below adds the infinities and NaN. The sign of a zero is not kept: no
  operation of the source tells \<open>-0.0\<close> from \<open>0.0\<close>.
\<close>

datatype py_error = ZeroDivisionError | IndexError | OverflowError | ValueError

text \<open>\<open>int(x)\<close> on a float truncates towards zero.\<close>

definition py_int :: "rat \<Rightarrow> int" where
  "py_int x = (if 0 \<le> x then \<lfloor>x\<rfloor> else \<lceil>x\<rceil>)"

text \<open>\<open>round(x)\<close> rounds to the nearest integer, a tie going to the even neighbour.\<close>

definition py_round_half_even :: "rat \<Rightarrow> int" where
  "py_round_half_even x =
     (let f = \<lfloor>x\<rfloor>; d = x - of_int f
      in if d < 1 / 2 then f
         else if 1 / 2 < d then f + 1
         else if even f then f else f + 1)"

text \<open>\<open>pow2 k\<close> is two to the power \<open>k\<close>, for an integer \<open>k\<close>.\<close>

definition pow2 :: "int \<Rightarrow> rat" where
  "pow2 k = (if 0 \<le> k then of_int (2 ^ nat k) else 1 / of_int (2 ^ nat (- k)))"

text \<open>
  \<open>ilog2 x\<close> is the binary exponent of a positive rational: the \<open>e\<close> with
  \<open>2^e \<le> x < 2^(e + 1)\<close>. It is found from the bit lengths of the numerator and the
  denominator, which leave two candidates.
\<close>

definition ilog2 :: "rat \<Rightarrow> int" where
  "ilog2 x =
     (case quotient_of x of
        (p, q) \<Rightarrow> (let d = bitlen p - bitlen q in if pow2 d \<le> x then d else d - 1))"

text \<open>
  Rounding to binary64, to nearest with ties to even: a number with exponent \<open>e\<close> is
  rounded to a multiple of \<open>2^(e - 52)\<close> (53 significant bits), and below \<open>2^(-1022)\<close> to
  a multiple of \<open>2^(-1074)\<close> (the subnormal numbers). \<open>dbl\<close> is the rounded value without
  regard to the largest float; \<open>fl\<close> gives an infinity when the rounded value reaches
  \<open>2^1024\<close>. Every float operation of the source is the exact operation followed by
  \<open>fl\<close>.
\<close>

definition dbl :: "rat \<Rightarrow> rat" where
  "dbl x =
     (if x = 0 then 0
      else (let e = max (ilog2 \<bar>x\<bar>) (- 1022); ulp = pow2 (e - 52)
            in sgn x * (of_int (py_round_half_even (\<bar>x\<bar> / ulp)) * ulp)))"

datatype pyfloat = Fin rat | PInf | NInf | NaN

definition fl :: "rat \<Rightarrow> pyfloat" where
  "fl x =
     (let v = dbl x
      in if v = 0 then Fin 0
         else if 1024 \<le> ilog2 \<bar>v\<bar> then (if 0 < v then PInf else NInf)
         else Fin v)"

fun is_fin :: "pyfloat \<Rightarrow> bool" where
  "is_fin (Fin x) = True"
| "is_fin PInf = False"
| "is_fin NInf = False"
| "is_fin NaN = False"

text \<open>\<open>a + b\<close>, \<open>-a\<close>, \<open>a - b\<close> and \<open>fabs(a)\<close> on floats.\<close>

fun float_add :: "pyfloat \<Rightarrow> pyfloat \<Rightarrow> pyfloat" where
  "float_add (Fin a) (Fin b) = fl (a + b)"
| "float_add NaN b = NaN"
| "float_add a NaN = NaN"
| "float_add PInf NInf = NaN"
| "float_add NInf PInf = NaN"
| "float_add PInf b = PInf"
| "float_add NInf b = NInf"
| "float_add (Fin a) PInf = PInf"
| "float_add (Fin a) NInf = NInf"

fun float_neg :: "pyfloat \<Rightarrow> pyfloat" where
  "float_neg (Fin a) = Fin (- a)"
| "float_neg PInf = NInf"
| "float_neg NInf = PInf"
| "float_neg NaN = NaN"

definition float_sub :: "pyfloat \<Rightarrow> pyfloat \<Rightarrow> pyfloat" where
  "float_sub a b = float_add a (float_neg b)"

fun float_abs :: "pyfloat \<Rightarrow> pyfloat" where
  "float_abs (Fin a) = Fin \<bar>a\<bar>"
| "float_abs PInf = PInf"
| "float_abs NInf = PInf"
| "float_abs NaN = NaN"

text \<open>\<open>a <= b\<close> and \<open>a < b\<close> on floats: false when either side is NaN.\<close>

fun float_le :: "pyfloat \<Rightarrow> pyfloat \<Rightarrow> bool" where
  "float_le (Fin a) (Fin b) = (a \<le> b)"
| "float_le NaN b = False"
| "float_le a NaN = False"
| "float_le NInf b = True"
| "float_le a PInf = True"
| "float_le PInf b = False"
| "float_le (Fin a) NInf = False"

fun float_lt :: "pyfloat \<Rightarrow> pyfloat \<Rightarrow> bool" where
  "float_lt (Fin a) (Fin b) = (a < b)"
| "float_lt NaN b = False"
| "float_lt a NaN = False"
| "float_lt PInf b = False"
| "float_lt a NInf = False"
| "float_lt NInf b = True"
| "float_lt (Fin a) PInf = True"

text \<open>
  \<open>a / b\<close> on floats: Python raises \<open>ZeroDivisionError\<close> when \<open>b\<close> is zero; a quotient
  beyond the float range is an infinity, with no exception.
\<close>

fun float_truediv :: "pyfloat \<Rightarrow> pyfloat \<Rightarrow> py_error + pyfloat" where
  "float_truediv a (Fin b) =
     (if b = 0 then Inl ZeroDivisionError
      else (case a of
              Fin x \<Rightarrow> Inr (fl (x / b))
            | PInf \<Rightarrow> Inr (if 0 < b then PInf else NInf)
            | NInf \<Rightarrow> Inr (if 0 < b then NInf else PInf)
            | NaN \<Rightarrow> Inr NaN))"
| "float_truediv a NaN = Inr NaN"
| "float_truediv (Fin x) PInf = Inr (Fin 0)"
| "float_truediv (Fin x) NInf = Inr (Fin 0)"
| "float_truediv a PInf = Inr NaN"
| "float_truediv a NInf = Inr NaN"

text \<open>
  \<open>float(n)\<close>, the conversion that \<open>x / n\<close> applies to an integer \<open>n\<close>. Python raises
  \<open>OverflowError\<close> for an integer beyond the float range; the integers converted here, the
  length of a list and the ceiling of a finite float, are within it.
\<close>

definition int_to_float :: "int \<Rightarrow> pyfloat" where
  "int_to_float n = fl (of_int n)"

text \<open>\<open>math.ceil(x)\<close> and \<open>int(x)\<close> on a float.\<close>

fun py_ceil :: "pyfloat \<Rightarrow> py_error + int" where
  "py_ceil (Fin x) = Inr \<lceil>x\<rceil>"
| "py_ceil PInf = Inl OverflowError"
| "py_ceil NInf = Inl OverflowError"
| "py_ceil NaN = Inl ValueError"

fun float_to_int :: "pyfloat \<Rightarrow> py_error + int" where
  "float_to_int (Fin x) = Inr (py_int x)"
| "float_to_int PInf = Inl OverflowError"
| "float_to_int NInf = Inl OverflowError"
| "float_to_int NaN = Inl ValueError"

text \<open>
  \<open>round(x, 3)\<close>: the decimal with 3 places nearest to the exact value of \<open>x\<close>, a tie
  going to the even last digit, converted back to the nearest float; infinities and NaN
  are returned as they are. Rounding a float to 3 places does not leave the float range.
  \<open>py_round3\<close> is the same on a finite float, for the places where the source rounds a
  time it has measured.
\<close>

fun float_round3 :: "pyfloat \<Rightarrow> pyfloat" where
  "float_round3 (Fin x) = fl (of_int (py_round_half_even (x * 1000)) / 1000)"
| "float_round3 PInf = PInf"
| "float_round3 NInf = NInf"
| "float_round3 NaN = NaN"

definition py_round3 :: "rat \<Rightarrow> rat" where
  "py_round3 x = dbl (of_int (py_round_half_even (x * 1000)) / 1000)"

text \<open>
  \<open>xs[i]\<close> on a list: the indices \<open>0 .. len - 1\<close> read from the front, \<open>-len .. -1\<close> from
  the back, and every other index raises \<open>IndexError\<close>.
\<close>

definition py_getitem :: "'a list \<Rightarrow> int \<Rightarrow> py_error + 'a" where
  "py_getitem xs i =
     (if 0 \<le> i \<and> i < int (length xs) then Inr (xs ! nat i)
      else if i < 0 \<and> - int (length xs) \<le> i then Inr (xs ! nat (int (length xs) + i))
      else Inl IndexError)"

text \<open>\<open>s.startswith(p)\<close>.\<close>

definition startswith :: "string \<Rightarrow> string \<Rightarrow> bool" where
  "startswith s p = (take (length p) s = p)"

text \<open>\<open>s.split('#')[0]\<close>: the part of \<open>s\<close> before its first \<open>#\<close>.\<close>

definition split_hash_first :: "string \<Rightarrow> string" where
  "split_hash_first s = takeWhile (\<lambda>c. c \<noteq> CHR ''#'') s"

text \<open>
  \<open>s.lower()\<close> on the code points below 256: the upper-case letters are \<open>A\<close> to \<open>Z\<close>
  and \<open>0xC0\<close> to \<open>0xDE\<close> without \<open>0xD7\<close>; each is 32 below its lower-case letter, which
  is the same byte with bit 5 set.
\<close>

definition py_isupper :: "char \<Rightarrow> bool" where
  "py_isupper c =
     (let n = (of_char c :: nat)
      in (65 \<le> n \<and> n \<le> 90) \<or> (192 \<le> n \<and> n \<le> 222 \<and> n \<noteq> 215))"

fun py_lower_char :: "char \<Rightarrow> char" where
  "py_lower_char (Char b0 b1 b2 b3 b4 b5 b6 b7) =
     (if py_isupper (Char b0 b1 b2 b3 b4 b5 b6 b7)
      then Char b0 b1 b2 b3 b4 True b6 b7
      else Char b0 b1 b2 b3 b4 b5 b6 b7)"

definition py_lower :: "string \<Rightarrow> string" where
  "py_lower s = map py_lower_char s"

text \<open>\<open>s.strip()\<close> removes white space at both ends.\<close>

definition py_isspace :: "char \<Rightarrow> bool" where
  "py_isspace c =
     ((of_char c :: nat) \<in> {9, 10, 11, 12, 13, 28, 29, 30, 31, 32, 133, 160})"

definition py_strip :: "string \<Rightarrow> string" where
  "py_strip s = rev (dropWhile py_isspace (rev (dropWhile py_isspace s)))"

text \<open>\<open>a or b\<close> on an optional string: \<open>None\<close> and the empty string are falsy.\<close>

fun truthy :: "string option \<Rightarrow> bool" where
  "truthy None = False"
| "truthy (Some s) = (s \<noteq> [])"

fun py_or :: "string option \<Rightarrow> string \<Rightarrow> string" where
  "py_or None d = d"
| "py_or (Some s) d = (if s = [] then d else s)"


section \<open>The network and the libraries, as seen by the program\<close>

text \<open>
  A parsed page, as far as the program queries it through BeautifulSoup:
  \<^item> \<open>title_string\<close>: \<open>None\<close> when \<open>soup.title\<close> is \<open>None\<close>, else \<open>soup.title.string\<close>;
  \<^item> \<open>has_meta_description\<close>: \<open>soup.find("meta", attrs={"name": "description"})\<close> finds a tag;
  \<^item> \<open>has_h1\<close>: \<open>soup.find("h1")\<close> finds a tag;
  \<^item> \<open>html_lang\<close>: \<open>None\<close> when \<open>soup.find("html")\<close> is \<open>None\<close>, else its \<open>get("lang")\<close>;
  \<^item> \<open>img_alts\<close>: \<open>img.get("alt")\<close> of every \<open>img\<close> in document order;
  \<^item> \<open>anchor_hrefs\<close>: \<open>a["href"]\<close> of every \<open>a\<close> with an \<open>href\<close>, in document order.
\<close>

record document =
  title_string :: "string option option"
  has_meta_description :: bool
  has_h1 :: bool
  html_lang :: "string option option"
  img_alts :: "string option list"
  anchor_hrefs :: "string list"

text \<open>
  A response of \<open>requests.get\<close>: its status code, its header fields as received (name and
  value), and its body, given by its parse.
\<close>

record response =
  status_code :: int
  headers :: "(string \<times> string) list"
  soup :: document

text \<open>
  \<open>h in r.headers\<close>. The attribute \<open>headers\<close> of a \<open>requests\<close> response is a
  \<open>requests.structures.CaseInsensitiveDict\<close>: it stores each field under \<open>key.lower()\<close>
  and looks a key up by \<open>key.lower()\<close>, so the containment test ignores case.
\<close>

definition header_in :: "string \<Rightarrow> (string \<times> string) list \<Rightarrow> bool" where
  "header_in h hs = (py_lower h \<in> set (map (\<lambda>kv. py_lower (fst kv)) hs))"

text \<open>
  What lies outside the program, for one crawl:
  \<^item> \<open>audit_get u\<close>: the request of \<open>fetch_page\<close> for \<open>u\<close>; \<open>Inl msg\<close> when it raises an
    exception \<open>e\<close> with \<open>str(e) = msg\<close>, else the response and the time measured around it;
  \<^item> \<open>crawl_get u\<close>: the second request for \<open>u\<close>, made by \<open>crawl_site\<close> for the links;
    \<open>None\<close> when the request or the parse of its body raises;
  \<^item> \<open>urljoin base href\<close> and \<open>netloc u\<close> (that is \<open>urlparse(u).netloc\<close>) of
    \<open>urllib.parse\<close>; \<open>None\<close> when the call raises \<open>ValueError\<close>.
  A crawl requests every URL at most once in each role, so functions of the URL lose
  nothing.
\<close>

record net =
  audit_get :: "string \<Rightarrow> string + (response \<times> rat)"
  crawl_get :: "string \<Rightarrow> response option"
  urljoin :: "string \<Rightarrow> string \<Rightarrow> string option"
  netloc :: "string \<Rightarrow> string option"


section \<open>Core crawling and auditing\<close>

definition SECURITY_HEADERS :: "string list" where
  "SECURITY_HEADERS =
     [''Content-Security-Policy'',
      ''Strict-Transport-Security'',
      ''X-Frame-Options'',
      ''X-Content-Type-Options'']"

text \<open>\<open>fetch_page\<close> returns the triple \<open>(r, elapsed, err)\<close>.\<close>

definition fetch_page :: "net \<Rightarrow> string \<Rightarrow> response option \<times> rat option \<times> string option" where
  "fetch_page N u =
     (case audit_get N u of
        Inr (r, dt) \<Rightarrow> (Some r, Some (py_round3 dt), None)
      | Inl e \<Rightarrow> (None, None, Some e))"

text \<open>The status of an audit record is a status code or the string \<open>"Error"\<close>.\<close>

datatype status = StatusCode int | StatusError

record page_audit =
  url :: string
  status :: "status option"
  load_time :: "rat option"
  security :: "string list"
  seo :: "string list"
  accessibility :: "string list"
  error :: "string option"

definition not_https_finding :: string where
  "not_https_finding = ''Site is not using HTTPS''"

definition missing_header_finding :: "string \<Rightarrow> string" where
  "missing_header_finding h = ''Missing security header: '' @ h"

text \<open>The security checks of \<open>analyze_page\<close>, appending to the list in the source's order.\<close>

definition security_checks :: "string \<Rightarrow> response \<Rightarrow> string list \<Rightarrow> string list" where
  "security_checks u r sec =
     fold (\<lambda>h acc. if \<not> header_in h (headers r) then acc @ [missing_header_finding h] else acc)
       SECURITY_HEADERS
       (if startswith u ''http://'' then sec @ [not_https_finding] else sec)"

definition seo_checks :: "document \<Rightarrow> string list \<Rightarrow> string list" where
  "seo_checks d acc =
     (let acc1 = (if (case title_string d of None \<Rightarrow> True
                      | Some s \<Rightarrow> py_strip (py_or s []) = [])
                  then acc @ [''Missing <title> tag''] else acc);
          acc2 = (if \<not> has_meta_description d then acc1 @ [''Missing meta description'']
                  else acc1)
      in if \<not> has_h1 d then acc2 @ [''Missing <h1> heading''] else acc2)"

text \<open>The loop over the images stops at the first image without \<open>alt\<close> text.\<close>

fun img_alt_check :: "string option list \<Rightarrow> string list \<Rightarrow> string list" where
  "img_alt_check [] acc = acc"
| "img_alt_check (alt # alts) acc =
     (if \<not> truthy alt then acc @ [''Image missing alt attribute'']
      else img_alt_check alts acc)"

definition accessibility_checks :: "document \<Rightarrow> string list \<Rightarrow> string list" where
  "accessibility_checks d acc =
     img_alt_check (img_alts d)
       (case html_lang d of
          None \<Rightarrow> acc
        | Some lang \<Rightarrow>
            if \<not> truthy lang then acc @ [''<html> tag missing 'lang' attribute''] else acc)"

definition analyze_page :: "net \<Rightarrow> string \<Rightarrow> page_audit" where
  "analyze_page N u =
     (let result = \<lparr>url = u, status = None, load_time = None, security = [], seo = [],
                     accessibility = [], error = None\<rparr>
      in case fetch_page N u of
           (r, elapsed, err) \<Rightarrow>
             (case (if truthy err then None else r) of
                None \<Rightarrow> result\<lparr>status := Some StatusError, error := Some (py_or err ''Fetch error'')\<rparr>
              | Some resp \<Rightarrow>
                  result\<lparr>status := Some (StatusCode (status_code resp)),
                         load_time := elapsed,
                         security := security_checks u resp (security result),
                         seo := seo_checks (soup resp) (seo result),
                         accessibility := accessibility_checks (soup resp) (accessibility result)\<rparr>))"

text \<open>
  The loop of \<open>crawl_site\<close> over the anchors of a page. An exception of \<open>urljoin\<close> or
  \<open>urlparse\<close> leaves the loop through the \<open>except\<close> clause; the links appended before it
  stay in the queue. The message that the clause prints is not part of the model.
\<close>

fun enqueue_links ::
  "net \<Rightarrow> string \<Rightarrow> string \<Rightarrow> string fset \<Rightarrow> string list \<Rightarrow> string list \<Rightarrow> string list" where
  "enqueue_links N start_url u vis [] q = q"
| "enqueue_links N start_url u vis (href # hrefs) q =
     (case urljoin N u href of
        None \<Rightarrow> q
      | Some joined \<Rightarrow>
          (let link = split_hash_first joined
           in case netloc N link of
                None \<Rightarrow> q
              | Some nl \<Rightarrow>
                  (case netloc N start_url of
                     None \<Rightarrow> q
                   | Some ns \<Rightarrow>
                       if nl = ns
                       then (if link |\<notin>| vis \<and> link \<notin> set q
                             then enqueue_links N start_url u vis hrefs (q @ [link])
                             else enqueue_links N start_url u vis hrefs q)
                       else enqueue_links N start_url u vis hrefs q)))"

record crawl_state =
  visited :: "string fset"
  queue :: "string list"
  results :: "page_audit list"

text \<open>One execution of the body of the \<open>while\<close> loop (the queue is not empty there).\<close>

definition crawl_body :: "net \<Rightarrow> string \<Rightarrow> crawl_state \<Rightarrow> crawl_state" where
  "crawl_body N start_url s =
     (case queue s of
        [] \<Rightarrow> s
      | u # rest \<Rightarrow>
          if u |\<in>| visited s then s\<lparr>queue := rest\<rparr>
          else
            (let vis = finsert u (visited s);
                 res = results s @ [analyze_page N u]
             in case crawl_get N u of
                  None \<Rightarrow> \<lparr>visited = vis, queue = rest, results = res\<rparr>
                | Some r \<Rightarrow>
                    if status_code r \<noteq> 200
                    then \<lparr>visited = vis, queue = rest, results = res\<rparr>
                    else \<lparr>visited = vis,
                          queue = enqueue_links N start_url u vis (anchor_hrefs (soup r)) rest,
                          results = res\<rparr>))"

definition crawl_continues :: "int \<Rightarrow> crawl_state \<Rightarrow> bool" where
  "crawl_continues max_pages s = (queue s \<noteq> [] \<and> int (fcard (visited s)) < max_pages)"

function crawl_loop :: "net \<Rightarrow> string \<Rightarrow> int \<Rightarrow> crawl_state \<Rightarrow> crawl_state" where
  "crawl_loop N start_url max_pages s =
     (if crawl_continues max_pages s
      then crawl_loop N start_url max_pages (crawl_body N start_url s)
      else s)"
  by pat_completeness auto
termination
  by (relation "measures [\<lambda>(N, start_url, max_pages, s). nat (max_pages - int (fcard (visited s))),
                          \<lambda>(N, start_url, max_pages, s). length (queue s)]")
     (auto simp: crawl_continues_def crawl_body_def Let_def fcard_finsert_if
           split: list.splits option.splits)

declare crawl_loop.simps [simp del]

text \<open>The states at the head of the loop, from the first to the one that leaves it.\<close>

function crawl_trace :: "net \<Rightarrow> string \<Rightarrow> int \<Rightarrow> crawl_state \<Rightarrow> crawl_state list" where
  "crawl_trace N start_url max_pages s =
     s # (if crawl_continues max_pages s
          then crawl_trace N start_url max_pages (crawl_body N start_url s)
          else [])"
  by pat_completeness auto
termination
  by (relation "measures [\<lambda>(N, start_url, max_pages, s). nat (max_pages - int (fcard (visited s))),
                          \<lambda>(N, start_url, max_pages, s). length (queue s)]")
     (auto simp: crawl_continues_def crawl_body_def Let_def fcard_finsert_if
           split: list.splits option.splits)

declare crawl_trace.simps [simp del]

definition crawl_init :: "string \<Rightarrow> crawl_state" where
  "crawl_init start_url = \<lparr>visited = {||}, queue = [start_url], results = []\<rparr>"

definition crawl_site :: "net \<Rightarrow> string \<Rightarrow> int \<Rightarrow> page_audit list" where
  "crawl_site N start_url max_pages =
     results (crawl_loop N start_url max_pages (crawl_init start_url))"


section \<open>Load testing and autoscaling\<close>

text \<open>A load sample: the status (a status code or \<open>"Error"\<close>) and the elapsed time.\<close>

record load_sample =
  sample_status :: status
  sample_time :: "rat option"

text \<open>
  \<open>fetch_once\<close>, given what its request did: \<open>None\<close> when it raised, else the status
  code of the response and the time measured around the request.
\<close>

definition fetch_once :: "(int \<times> rat) option \<Rightarrow> load_sample" where
  "fetch_once outcome =
     (case outcome of
        Some (code, dt) \<Rightarrow> \<lparr>sample_status = StatusCode code, sample_time = Some (py_round3 dt)\<rparr>
      | None \<Rightarrow> \<lparr>sample_status = StatusError, sample_time = None\<rparr>)"

text \<open>
  The loop of \<open>run_load_test\<close>. A wave submits \<open>wave\<close> calls of \<open>fetch_once\<close> and appends
  the result of each as it completes; \<open>reqs k\<close> is the outcome of the request whose result
  is the \<open>k\<close>-th appended over the whole test, which fixes the order the threads finish
  in. The list \<open>waves\<close> is not in the source: it records the size of each wave.
\<close>

definition batch_size :: int where
  "batch_size = 300"

function run_load_test_loop ::
  "(nat \<Rightarrow> (int \<times> rat) option) \<Rightarrow> int \<Rightarrow> load_sample list \<Rightarrow> int list
     \<Rightarrow> load_sample list \<times> int list" where
  "run_load_test_loop reqs remaining res waves =
     (if remaining > 0
      then (let wave = min batch_size remaining
            in run_load_test_loop reqs (remaining - wave)
                 (res @ map (\<lambda>k. fetch_once (reqs k)) [length res ..< length res + nat wave])
                 (waves @ [wave]))
      else (res, waves))"
  by pat_completeness auto
termination
  by (relation "measure (\<lambda>(reqs, remaining, res, waves). nat remaining)")
     (auto simp: batch_size_def)

declare run_load_test_loop.simps [simp del]

definition run_load_test :: "(nat \<Rightarrow> (int \<times> rat) option) \<Rightarrow> int \<Rightarrow> load_sample list" where
  "run_load_test reqs users = fst (run_load_test_loop reqs users [] [])"

definition run_load_test_waves :: "(nat \<Rightarrow> (int \<times> rat) option) \<Rightarrow> int \<Rightarrow> int list" where
  "run_load_test_waves reqs users = snd (run_load_test_loop reqs users [] [])"

text \<open>
  The wave sizes as the specification words them: while requests remain, the next wave
  has \<open>min(batchSize, remaining)\<close> of them, with a batch size of 300.
\<close>

function spec_waves :: "int \<Rightarrow> int list" where
  "spec_waves remaining =
     (if remaining > 0 then min 300 remaining # spec_waves (remaining - min 300 remaining)
      else [])"
  by pat_completeness auto
termination
  by (relation "measure nat") auto

declare spec_waves.simps [simp del]

text \<open>
  \<open>sum(times)\<close> on a list of floats is taken as a parameter of the summary, since the
  algorithm depends on the interpreter: CPython before 3.12 adds the items from left to
  right (\<open>sum_left\<close>), CPython from 3.12 keeps a running compensation for the rounding
  errors and adds it at the end (\<open>sum_neumaier\<close>). In both the start value, the integer
  0, is added to the first item.
\<close>

definition sum_left :: "rat list \<Rightarrow> pyfloat" where
  "sum_left ts = fold (\<lambda>t acc. float_add acc (Fin t)) ts (Fin 0)"

fun neumaier :: "pyfloat \<Rightarrow> pyfloat \<Rightarrow> rat list \<Rightarrow> pyfloat" where
  "neumaier hi lo [] = (if lo \<noteq> Fin 0 \<and> is_fin lo then float_add hi lo else hi)"
| "neumaier hi lo (x # xs) =
     (let t = float_add hi (Fin x);
          lo' = (if float_le (float_abs (Fin x)) (float_abs hi)
                 then float_add lo (float_add (float_sub hi t) (Fin x))
                 else float_add lo (float_add (float_sub (Fin x) t) hi))
      in neumaier t lo' xs)"

definition sum_neumaier :: "rat list \<Rightarrow> pyfloat" where
  "sum_neumaier ts =
     (case ts of
        [] \<Rightarrow> Fin 0
      | x # xs \<Rightarrow> neumaier (float_add (Fin 0) (Fin x)) (Fin 0) xs)"

text \<open>
  The histogram is a \<open>Counter\<close>: a multiset of bucket keys, \<open>int(t * 10) / 10\<close> for each
  elapsed time \<open>t\<close>. \<open>int\<close> raises \<open>OverflowError\<close> when \<open>t * 10\<close> is beyond the float
  range.
\<close>

definition hist_key :: "rat \<Rightarrow> py_error + pyfloat" where
  "hist_key t =
     (case float_to_int (fl (t * 10)) of
        Inl e \<Rightarrow> Inl e
      | Inr k \<Rightarrow> Inr (fl (of_int k / 10)))"

fun hist_keys :: "rat list \<Rightarrow> py_error + pyfloat list" where
  "hist_keys [] = Inr []"
| "hist_keys (t # ts) =
     (case hist_key t of
        Inl e \<Rightarrow> Inl e
      | Inr k \<Rightarrow> (case hist_keys ts of Inl e \<Rightarrow> Inl e | Inr ks \<Rightarrow> Inr (k # ks)))"

record load_summary =
  total :: int
  success :: int
  failures :: int
  avg :: "pyfloat option"
  p95 :: "rat option"
  histogram :: "pyfloat multiset"

text \<open>
  The index of \<open>p95\<close> is \<open>int(0.95 * (len(s) - 1))\<close>; the truncated float product is
  the floor of \<open>19 / 20 * (len(s) - 1)\<close>, which the model takes.
\<close>

definition summarize_load_results ::
  "(rat list \<Rightarrow> pyfloat) \<Rightarrow> load_sample list \<Rightarrow> py_error + load_summary" where
  "summarize_load_results py_sum rs =
     (let total = int (length rs);
          success = int (length (filter (\<lambda>r. sample_status r = StatusCode 200) rs));
          failures = total - success;
          times = List.map_filter sample_time rs;
          avg = (if times \<noteq> []
                 then map_sum id (\<lambda>q. Some (float_round3 q))
                        (float_truediv (py_sum times) (int_to_float (int (length times))))
                 else Inr None);
          p95 = (if times \<noteq> []
                 then (let s = sort times;
                           idx = py_int (19 / 20 * of_int (int (length s) - 1))
                       in map_sum id Some (py_getitem s idx))
                 else Inr None)
      in case avg of
           Inl e \<Rightarrow> Inl e
         | Inr a \<Rightarrow>
             (case p95 of
                Inl e \<Rightarrow> Inl e
              | Inr p \<Rightarrow>
                  (case hist_keys times of
                     Inl e \<Rightarrow> Inl e
                   | Inr ks \<Rightarrow>
                       Inr \<lparr>total = total, success = success, failures = failures, avg = a,
                            p95 = p, histogram = mset ks\<rparr>)))"

record scale_estimate =
  servers :: int
  scaled_avg :: "pyfloat option"
  processed :: int
  failed :: int

definition auto_scale ::
  "pyfloat option \<Rightarrow> pyfloat \<Rightarrow> load_summary \<Rightarrow> py_error + scale_estimate" where
  "auto_scale avg_time target load_summary =
     (let unscaled = \<lparr>servers = 1, scaled_avg = avg_time, processed = success load_summary,
                       failed = failures load_summary\<rparr>
      in case avg_time of
           None \<Rightarrow> Inr unscaled
         | Some a \<Rightarrow>
             if float_le a (Fin 0) then Inr unscaled
             else (case float_truediv a target of
                     Inl e \<Rightarrow> Inl e
                   | Inr q \<Rightarrow>
                       (case py_ceil q of
                          Inl e \<Rightarrow> Inl e
                        | Inr c \<Rightarrow>
                            (let servers = max 1 c
                             in case float_truediv a (int_to_float servers) of
                                  Inl e \<Rightarrow> Inl e
                                | Inr s \<Rightarrow>
                                    Inr \<lparr>servers = servers,
                                         scaled_avg = Some (float_round3 s),
                                         processed = total load_summary, failed = 0\<rparr>))))"


section \<open>Concrete inputs\<close>

definition summary0 :: load_summary where
  "summary0 =
     \<lparr>total = 10, success = 7, failures = 3, avg = Some (Fin 4), p95 = Some 6,
      histogram = {#}\<rparr>"

definition samples5 :: "load_sample list" where
  "samples5 =
     map (\<lambda>t. \<lparr>sample_status = StatusCode 200, sample_time = Some t\<rparr>) [1, 2, 3, 4, 5]"

definition samples_mixed :: "load_sample list" where
  "samples_mixed =
     [\<lparr>sample_status = StatusCode 200, sample_time = Some (1 / 4)\<rparr>,
      \<lparr>sample_status = StatusError, sample_time = None\<rparr>,
      \<lparr>sample_status = StatusCode 503, sample_time = Some (1 / 8)\<rparr>]"

text \<open>The floats \<open>0.005\<close>, \<open>0.006\<close>, \<open>0.017\<close> and \<open>0.001\<close>, by their exact values.\<close>

definition d0005 :: rat where
  "d0005 = 5764607523034235 / 2 ^ 60"

definition d0006 :: rat where
  "d0006 = 3458764513820541 / 2 ^ 59"

definition d0017 :: rat where
  "d0017 = 1224979098644775 / 2 ^ 56"

definition d0001 :: rat where
  "d0001 = 1152921504606847 / 2 ^ 60"

text \<open>The floats \<open>0.011\<close> and \<open>0.0055\<close> that the sum and the mean of the two round to.\<close>

definition d0011 :: rat where
  "d0011 = 3170534137668829 / 2 ^ 58"

definition d00055 :: rat where
  "d00055 = 3170534137668829 / 2 ^ 59"

definition samples_ms :: "load_sample list" where
  "samples_ms =
     [\<lparr>sample_status = StatusCode 200, sample_time = Some d0005\<rparr>,
      \<lparr>sample_status = StatusCode 200, sample_time = Some d0006\<rparr>]"

definition reqs0 :: "nat \<Rightarrow> (int \<times> rat) option" where
  "reqs0 k = (if even k then Some (200, 1 / 8) else None)"

definition net_down :: net where
  "net_down =
     \<lparr>audit_get = (\<lambda>u. Inl ''Connection refused''),
      crawl_get = (\<lambda>u. None),
      urljoin = (\<lambda>b h. Some h),
      netloc = (\<lambda>u. Some u)\<rparr>"

definition page_home :: document where
  "page_home =
     \<lparr>title_string = Some (Some ''Home''), has_meta_description = True, has_h1 = True,
      html_lang = Some (Some ''en''), img_alts = [Some ''logo''],
      anchor_hrefs = [''/about#team'', ''http://b.com/x'', ''/'']\<rparr>"

definition page_about :: document where
  "page_about =
     \<lparr>title_string = None, has_meta_description = False, has_h1 = True,
      html_lang = Some None, img_alts = [Some ''team'', None, None],
      anchor_hrefs = [''/'', ''/about'']\<rparr>"

definition site0 :: "(string \<times> response) list" where
  "site0 =
     [(''http://a.com/'', \<lparr>status_code = 200, headers = [], soup = page_home\<rparr>),
      (''http://a.com/about'',
       \<lparr>status_code = 200, headers = [(''X-Frame-Options'', ''DENY'')], soup = page_about\<rparr>)]"

definition urljoin0 :: "string \<Rightarrow> string \<Rightarrow> string option" where
  "urljoin0 base href = Some (if startswith href ''http'' then href else ''http://a.com'' @ href)"

definition netloc0 :: "string \<Rightarrow> string option" where
  "netloc0 u =
     Some (takeWhile (\<lambda>c. c \<noteq> CHR ''/'') (drop 2 (dropWhile (\<lambda>c. c \<noteq> CHR ''/'') u)))"

definition net0 :: net where
  "net0 =
     \<lparr>audit_get = (\<lambda>u. case map_of site0 (split_hash_first u) of
                          Some r \<Rightarrow> Inr (r, 1 / 4)
                        | None \<Rightarrow> Inl ''Name or service not known''),
      crawl_get = (\<lambda>u. map_of site0 (split_hash_first u)),
      urljoin = urljoin0,
      netloc = netloc0\<rparr>"

definition resp_plain :: response where
  "resp_plain = \<lparr>status_code = 200, headers = [(''Server'', ''nginx'')], soup = page_home\<rparr>"

definition net_plain :: net where
  "net_plain =
     \<lparr>audit_get = (\<lambda>u. Inr (resp_plain, 1 / 4)),
      crawl_get = (\<lambda>u. Some resp_plain),
      urljoin = urljoin0,
      netloc = netloc0\<rparr>"

definition resp_lower :: response where
  "resp_lower =
     \<lparr>status_code = 200,
      headers = [(''content-security-policy'', ''default-src https:''),
                 (''strict-transport-security'', ''max-age=63072000''),
                 (''x-frame-options'', ''DENY''),
                 (''x-content-type-options'', ''nosniff'')],
      soup = page_home\<rparr>"

definition net_lower :: net where
  "net_lower =
     \<lparr>audit_get = (\<lambda>u. Inr (resp_lower, 1 / 4)),
      crawl_get = (\<lambda>u. Some resp_lower),
      urljoin = urljoin0,
      netloc = netloc0\<rparr>"


section \<open>Rounding to binary64\<close>

lemma pow2_powi: "pow2 k = 2 powi k"
proof (cases "0 \<le> k")
  case True
  then show ?thesis by (simp add: pow2_def power_int_def)
next
  case False
  have "inverse (2::rat) ^ n = 1 / 2 ^ n" for n
    by (simp add: power_one_over inverse_eq_divide)
  with False show ?thesis by (simp add: pow2_def power_int_def)
qed

lemma pow2_pos: "0 < pow2 k"
  by (simp add: pow2_powi)

lemma pow2_add: "pow2 (j + k) = pow2 j * pow2 k"
  by (simp add: pow2_powi power_int_add)

lemma pow2_diff: "pow2 (j - k) = pow2 j / pow2 k"
  by (simp add: pow2_powi power_int_diff)

lemma pow2_mono: "j \<le> k \<Longrightarrow> pow2 j \<le> pow2 k"
  by (simp add: pow2_powi power_int_increasing)

lemma pow2_strict_mono: "j < k \<Longrightarrow> pow2 j < pow2 k"
  by (simp add: pow2_powi power_int_strict_increasing)

lemma pow2_nat: "pow2 (int n) = 2 ^ n"
  by (simp add: pow2_powi)

lemma ilog2_cases:
  assumes "0 < x"
  obtains p q where "quotient_of x = (p, q)" "0 < p" "0 < q" "x = of_int p / of_int q"
proof -
  obtain p q where pq: "quotient_of x = (p, q)" by (cases "quotient_of x")
  then have q: "0 < q" and x: "x = of_int p / of_int q"
    by (auto simp: quotient_of_denom_pos quotient_of_div)
  from assms x q have p: "0 < p" by (simp add: zero_less_divide_iff)
  show ?thesis by (rule that [OF pq p q x])
qed

lemma bitlen_rat_bounds:
  assumes "0 < (p::int)"
  shows "pow2 (bitlen p - 1) \<le> of_int p" and "of_int p < pow2 (bitlen p)"
proof -
  have b1: "1 \<le> bitlen p" using assms by (simp add: bitlen_alt_def)
  from bitlen_bounds [OF assms]
  have lo: "2 ^ nat (bitlen p - 1) \<le> p" and hi: "p < 2 ^ nat (bitlen p)" by simp_all
  have "(of_int (2 ^ nat (bitlen p - 1)) :: rat) \<le> of_int p"
    using lo by (simp only: of_int_le_iff)
  then show "pow2 (bitlen p - 1) \<le> of_int p"
    using b1 by (simp add: pow2_def)
  have "(of_int p :: rat) < of_int (2 ^ nat (bitlen p))"
    using hi by (simp only: of_int_less_iff)
  then show "of_int p < pow2 (bitlen p)"
    using b1 by (simp add: pow2_def)
qed

lemma ilog2_lower:
  assumes "0 < x"
  shows "pow2 (ilog2 x) \<le> x"
proof -
  from assms obtain p q where pq: "quotient_of x = (p, q)" and p: "0 < p" and q: "0 < q"
    and x: "x = of_int p / of_int q"
    by (rule ilog2_cases)
  let ?d = "bitlen p - bitlen q"
  show ?thesis
  proof (cases "pow2 ?d \<le> x")
    case True
    with pq show ?thesis by (simp add: ilog2_def)
  next
    case False
    have "pow2 (?d - 1) = pow2 (bitlen p - 1) / pow2 (bitlen q)"
      using pow2_diff [of "bitlen p - 1" "bitlen q"] by (simp add: algebra_simps)
    also have "\<dots> \<le> of_int p / pow2 (bitlen q)"
      using bitlen_rat_bounds(1) [OF p] pow2_pos [of "bitlen q"]
      by (simp add: divide_right_mono)
    also have "\<dots> \<le> of_int p / of_int q"
      using bitlen_rat_bounds(2) [OF q] p q
      by (intro divide_left_mono) (simp_all add: pow2_pos)
    finally have "pow2 (?d - 1) \<le> x" using x by simp
    with False pq show ?thesis by (simp add: ilog2_def)
  qed
qed

lemma ilog2_upper:
  assumes "0 < x"
  shows "x < pow2 (ilog2 x + 1)"
proof -
  from assms obtain p q where pq: "quotient_of x = (p, q)" and p: "0 < p" and q: "0 < q"
    and x: "x = of_int p / of_int q"
    by (rule ilog2_cases)
  let ?d = "bitlen p - bitlen q"
  show ?thesis
  proof (cases "pow2 ?d \<le> x")
    case True
    have "x = of_int p / of_int q" by (rule x)
    also have "\<dots> < pow2 (bitlen p) / of_int q"
      using bitlen_rat_bounds(2) [OF p] q by (simp add: divide_strict_right_mono)
    also have "\<dots> \<le> pow2 (bitlen p) / pow2 (bitlen q - 1)"
      using bitlen_rat_bounds(1) [OF q] pow2_pos [of "bitlen q - 1"] pow2_pos [of "bitlen p"]
      by (intro divide_left_mono) (simp_all add: less_imp_le)
    also have "\<dots> = pow2 (?d + 1)"
      using pow2_diff [of "bitlen p" "bitlen q - 1"] by (simp add: algebra_simps)
    finally show ?thesis using True pq by (simp add: ilog2_def)
  next
    case False
    with pq show ?thesis by (simp add: ilog2_def)
  qed
qed

lemma ilog2_unique:
  assumes "pow2 e \<le> x" and "x < pow2 (e + 1)"
  shows "ilog2 x = e"
proof -
  have x: "0 < x" using assms(1) pow2_pos [of e] by simp
  have "pow2 (ilog2 x) < pow2 (e + 1)"
    using ilog2_lower [OF x] assms(2) by simp
  then have a: "ilog2 x < e + 1"
    using pow2_mono [of "e + 1" "ilog2 x"] by (cases "ilog2 x < e + 1") simp_all
  have "pow2 e < pow2 (ilog2 x + 1)"
    using ilog2_upper [OF x] assms(1) by simp
  then have b: "e < ilog2 x + 1"
    using pow2_mono [of "ilog2 x + 1" e] by (cases "e < ilog2 x + 1") simp_all
  from a b show ?thesis by simp
qed

lemma py_round_half_even_near: "\<bar>of_int (py_round_half_even x) - x\<bar> \<le> 1 / 2"
proof -
  have lo: "of_int \<lfloor>x\<rfloor> \<le> x" and hi: "x < of_int \<lfloor>x\<rfloor> + 1"
    by linarith+
  show ?thesis
    unfolding py_round_half_even_def Let_def using lo hi
    by (simp add: abs_le_iff)
qed

lemma py_round_half_even_of_int [simp]: "py_round_half_even (of_int k) = k"
  by (simp add: py_round_half_even_def)

lemma dbl_error:
  assumes "0 < x"
  shows "\<bar>dbl x - x\<bar> \<le> max (x / 2 ^ 53) (pow2 (- 1075))"
proof -
  let ?e = "max (ilog2 x) (- 1022)"
  let ?ulp = "pow2 (?e - 52)"
  let ?m = "py_round_half_even (x / ?ulp)"
  have ulp: "0 < ?ulp" by (rule pow2_pos)
  have d: "dbl x = of_int ?m * ?ulp"
    using assms by (simp add: dbl_def Let_def)
  have "\<bar>of_int ?m - x / ?ulp\<bar> \<le> 1 / 2" by (rule py_round_half_even_near)
  then have "\<bar>of_int ?m - x / ?ulp\<bar> * ?ulp \<le> 1 / 2 * ?ulp"
    using ulp by (simp add: mult_right_mono)
  moreover have "\<bar>of_int ?m - x / ?ulp\<bar> * ?ulp = \<bar>of_int ?m * ?ulp - x\<bar>"
  proof -
    have "\<bar>of_int ?m - x / ?ulp\<bar> * ?ulp = \<bar>(of_int ?m - x / ?ulp) * ?ulp\<bar>"
      using ulp by (simp add: abs_mult)
    also have "(of_int ?m - x / ?ulp) * ?ulp = of_int ?m * ?ulp - x"
      using ulp by (simp add: field_simps)
    finally show ?thesis .
  qed
  ultimately have err: "\<bar>dbl x - x\<bar> \<le> ?ulp / 2" by (simp add: d)
  have half: "?ulp / 2 = pow2 (?e - 53)"
    using pow2_diff [of "?e - 52" 1] by (simp add: pow2_def)
  show ?thesis
  proof (cases "- 1022 \<le> ilog2 x")
    case True
    then have e: "?e = ilog2 x" by simp
    have "pow2 (?e - 53) = pow2 (ilog2 x) / 2 ^ 53"
      using pow2_diff [of "ilog2 x" 53] e by (simp add: pow2_def)
    also have "\<dots> \<le> x / 2 ^ 53"
      using ilog2_lower [OF assms] by (simp add: divide_right_mono)
    finally show ?thesis using err half by simp
  next
    case False
    then have e: "?e = - 1022" by simp
    have "pow2 (?e - 53) = pow2 (- 1075)" by (simp add: e)
    then show ?thesis using err half by simp
  qed
qed

lemma dbl_nonneg: "0 \<le> x \<Longrightarrow> 0 \<le> dbl x"
proof -
  assume "0 \<le> x"
  have "0 \<le> py_round_half_even y" if "0 \<le> y" for y
    using that by (auto simp: py_round_half_even_def Let_def)
  then show ?thesis
    using \<open>0 \<le> x\<close> by (simp add: dbl_def Let_def pow2_pos less_imp_le)
qed

lemma dbl_ge_one:
  assumes "1 \<le> x"
  shows "x - x / 2 ^ 53 \<le> dbl x"
proof -
  have x: "0 < x" using assms by simp
  have "pow2 (- 1075) \<le> 1 / 2 ^ 53"
    unfolding pow2_def by (simp add: field_simps power_increasing)
  also have "\<dots> \<le> x / 2 ^ 53" using assms by (simp add: divide_right_mono)
  finally have "max (x / 2 ^ 53) (pow2 (- 1075)) = x / 2 ^ 53" by simp
  with dbl_error [OF x] show ?thesis by (simp add: abs_le_iff)
qed

lemma py_round_half_even_ge:
  assumes "of_int N \<le> y"
  shows "N \<le> py_round_half_even y"
proof -
  have "N \<le> \<lfloor>y\<rfloor>" using assms by (simp add: le_floor_iff)
  then show ?thesis by (auto simp: py_round_half_even_def Let_def)
qed

lemma fl_Fin_dbl: "fl x = Fin v \<Longrightarrow> v = dbl x"
  by (auto simp: fl_def Let_def split: if_splits)

lemma ilog2_ge:
  assumes "pow2 k \<le> x"
  shows "k \<le> ilog2 x"
proof -
  have x: "0 < x" using assms pow2_pos [of k] by simp
  have "pow2 k < pow2 (ilog2 x + 1)"
    using ilog2_upper [OF x] assms by simp
  then have "k < ilog2 x + 1"
    using pow2_mono [of "ilog2 x + 1" k] by (cases "k < ilog2 x + 1") simp_all
  then show ?thesis by simp
qed

lemma fl_overflow:
  assumes "pow2 1024 \<le> x"
  shows "fl x = PInf"
proof -
  have x: "0 < x" using assms pow2_pos [of 1024] by simp
  let ?e = "ilog2 x"
  have e: "1024 \<le> ?e" using assms by (rule ilog2_ge)
  then have emax: "max ?e (- 1022) = ?e" by simp
  let ?ulp = "pow2 (?e - 52)"
  have ulp: "0 < ?ulp" by (rule pow2_pos)
  have "of_int (2 ^ 52) * ?ulp = pow2 52 * ?ulp" by (simp add: pow2_def)
  also have "\<dots> = pow2 ?e" using pow2_add [of 52 "?e - 52"] by simp
  also have "\<dots> \<le> x" using x by (rule ilog2_lower)
  finally have "of_int (2 ^ 52) \<le> x / ?ulp"
    using ulp by (simp add: pos_le_divide_eq)
  then have m: "2 ^ 52 \<le> py_round_half_even (x / ?ulp)"
    by (rule py_round_half_even_ge)
  have d: "dbl x = of_int (py_round_half_even (x / ?ulp)) * ?ulp"
    using x emax by (simp add: dbl_def Let_def)
  have "pow2 1024 \<le> pow2 ?e" using e by (rule pow2_mono)
  also have "\<dots> = of_int (2 ^ 52) * ?ulp"
    using pow2_add [of 52 "?e - 52"] by (simp add: pow2_def)
  also have "\<dots> \<le> dbl x"
  proof -
    have "(of_int (2 ^ 52) :: rat) \<le> of_int (py_round_half_even (x / ?ulp))"
      using m by (simp only: of_int_le_iff)
    then show ?thesis unfolding d using ulp by (simp add: mult_right_mono)
  qed
  finally have big: "pow2 1024 \<le> dbl x" .
  then have pos: "0 < dbl x" using pow2_pos [of 1024] by simp
  have "1024 \<le> ilog2 \<bar>dbl x\<bar>"
    using big pos by (intro ilog2_ge) simp
  with pos show ?thesis by (simp add: fl_def Let_def)
qed

lemma int_to_float_pos:
  assumes "1 \<le> n"
  shows "int_to_float n = PInf \<or> (\<exists>v. int_to_float n = Fin v \<and> 0 < v)"
proof -
  have one: "(1::rat) \<le> of_int n" using assms by simp
  have "(0::rat) < of_int n - of_int n / 2 ^ 53" using one by (simp add: field_simps)
  also have "\<dots> \<le> dbl (of_int n)" using one by (rule dbl_ge_one)
  finally have "0 < dbl (of_int n)" .
  then show ?thesis by (simp add: int_to_float_def fl_def Let_def)
qed

lemma float_truediv_int_returns:
  assumes "1 \<le> n"
  shows "\<exists>s. float_truediv a (int_to_float n) = Inr s"
  using int_to_float_pos [OF assms] by (cases a) auto

lemma float_round3_near:
  "\<exists>k::int. float_round3 (Fin x) = fl (of_int k / 1000) \<and> \<bar>of_int k / 1000 - x\<bar> \<le> 1 / 2000"
proof -
  have "\<bar>of_int (py_round_half_even (x * 1000)) - x * 1000\<bar> \<le> 1 / 2"
    by (rule py_round_half_even_near)
  then have "\<bar>of_int (py_round_half_even (x * 1000)) / 1000 - x\<bar> \<le> 1 / 2000"
    by (simp add: abs_le_iff field_simps)
  then show ?thesis by auto
qed

lemma fl_alt:
  "fl x = (if pow2 1024 \<le> dbl x then PInf
           else if dbl x \<le> - pow2 1024 then NInf
           else Fin (dbl x))"
proof (cases "dbl x = 0")
  case True
  then show ?thesis using pow2_pos [of 1024] by (simp add: fl_def)
next
  case False
  then have pos: "0 < \<bar>dbl x\<bar>" by simp
  have iff: "1024 \<le> ilog2 \<bar>dbl x\<bar> \<longleftrightarrow> pow2 1024 \<le> \<bar>dbl x\<bar>"
  proof
    assume "1024 \<le> ilog2 \<bar>dbl x\<bar>"
    then have "pow2 1024 \<le> pow2 (ilog2 \<bar>dbl x\<bar>)" by (rule pow2_mono)
    also have "\<dots> \<le> \<bar>dbl x\<bar>" using pos by (rule ilog2_lower)
    finally show "pow2 1024 \<le> \<bar>dbl x\<bar>" .
  next
    assume "pow2 1024 \<le> \<bar>dbl x\<bar>"
    then show "1024 \<le> ilog2 \<bar>dbl x\<bar>" by (rule ilog2_ge)
  qed
  show ?thesis
  proof (cases "0 < dbl x")
    case True
    with False iff pow2_pos [of 1024] show ?thesis
      by (simp add: fl_def Let_def)
  next
    case neg: False
    with False have "dbl x < 0" by simp
    with False iff pow2_pos [of 1024] show ?thesis
      by (auto simp: fl_def Let_def abs_if)
  qed
qed


section \<open>The autoscale heuristic\<close>

lemma floats_017_001: "fl (17 / 1000) = Fin d0017 \<and> fl (1 / 1000) = Fin d0001"
  by code_simp

lemma auto_scale_017_001:
  "auto_scale (Some (Fin d0017)) (Fin d0001) summary0 =
     Inr \<lparr>servers = 17, scaled_avg = Some (Fin d0001), processed = 10, failed = 0\<rparr>"
  by code_simp

lemma auto_scale_finite_quotient:
  assumes "\<not> float_le a (Fin 0)" and "float_truediv a target = Inr (Fin q)"
  shows "\<exists>s. float_truediv a (int_to_float (max 1 \<lceil>q\<rceil>)) = Inr s \<and>
             auto_scale (Some a) target summary =
               Inr \<lparr>servers = max 1 \<lceil>q\<rceil>, scaled_avg = Some (float_round3 s),
                    processed = total summary, failed = 0\<rparr>"
proof -
  have "1 \<le> max 1 \<lceil>q\<rceil>" by simp
  then obtain s where s: "float_truediv a (int_to_float (max 1 \<lceil>q\<rceil>)) = Inr s"
    using float_truediv_int_returns by blast
  with assms show ?thesis by (simp add: auto_scale_def Let_def)
qed

lemma auto_scale_servers_ge_one:
  "auto_scale avg_time target summary = Inr e \<Longrightarrow> 1 \<le> servers e"
  by (auto simp: auto_scale_def Let_def split: option.splits if_splits sum.splits)

text \<open>
  Claim C3, as the specification words it: for every summary and target above zero the
  estimate is returned, with \<open>ceil(avg / target)\<close> servers when the average is above zero.
  For the floats 0.017 and 0.001 the code returns 17 servers, the ceiling of the float
  quotient 17.0, while the ceiling of the exact quotient is 18; for the floats \<open>2^1023\<close>
  and \<open>2^(-10)\<close> the float quotient is infinite and \<open>math.ceil\<close> raises \<open>OverflowError\<close>,
  so nothing is returned.
\<close>

theorem auto_scale_float_quotient_counterexample:
  "auto_scale (Some (Fin d0017)) (Fin d0001) summary0 =
     Inr \<lparr>servers = 17, scaled_avg = Some (Fin d0001), processed = 10, failed = 0\<rparr>
   \<and> fl (17 / 1000) = Fin d0017 \<and> fl (1 / 1000) = Fin d0001
   \<and> \<lceil>d0017 / d0001\<rceil> = 18
   \<and> auto_scale (Some (Fin (pow2 1023))) (Fin (pow2 (- 10))) summary0 = Inl OverflowError"
proof -
  have c: "\<lceil>d0017 / d0001\<rceil> = 18" by code_simp
  have "pow2 1023 / pow2 (- 10) = pow2 1033"
    using pow2_diff [of 1023 "- 10"] by simp
  moreover have "pow2 1024 \<le> pow2 1033" by (rule pow2_mono) simp
  ultimately have inf: "fl (pow2 1023 / pow2 (- 10)) = PInf"
    by (simp add: fl_overflow)
  have nz: "pow2 (- 10) \<noteq> 0" "\<not> pow2 1023 \<le> 0"
    using pow2_pos [of "- 10"] pow2_pos [of 1023] by simp_all
  have ov: "auto_scale (Some (Fin (pow2 1023))) (Fin (pow2 (- 10))) summary0 = Inl OverflowError"
    using nz inf by (simp add: auto_scale_def)
  from auto_scale_017_001 floats_017_001 c ov show ?thesis by (intro conjI) simp_all
qed

text \<open>
  Claim C3, amended. Let the target be above zero; then dividing by it does not raise.
  \<open>auto_scale\<close> returns one server, the average as it was given, \<open>success\<close> as processed
  and \<open>failures\<close> as failed when the average is \<open>None\<close> or not above zero. Otherwise,
  when the float quotient \<open>q = avg / target\<close> is finite, it returns \<open>ceil(q)\<close> servers, at
  least one, the float quotient of the average by the servers rounded to 3 places,
  \<open>total\<close> as processed and no failure; when \<open>q\<close> is infinite or NaN it raises. Whenever
  it returns, the servers are at least one. With an average of 3.0 and a target of 1.5 it
  returns 2 servers, a scaled average of 1.5 and no failure; with no average it returns 1
  server and the failures of the summary.
\<close>

theorem auto_scale_estimate:
  "float_lt (Fin 0) target \<Longrightarrow>
     ((avg_time = None \<or> (\<exists>a. avg_time = Some a \<and> float_le a (Fin 0))) \<longrightarrow>
        auto_scale avg_time target summary =
          Inr \<lparr>servers = 1, scaled_avg = avg_time, processed = success summary,
               failed = failures summary\<rparr>)
     \<and> (\<forall>a. \<exists>q. float_truediv a target = Inr q)
     \<and> (\<forall>a q. avg_time = Some a \<and> \<not> float_le a (Fin 0) \<and>
               float_truediv a target = Inr (Fin q) \<longrightarrow>
           (\<exists>s. float_truediv a (int_to_float (max 1 \<lceil>q\<rceil>)) = Inr s \<and>
                auto_scale avg_time target summary =
                  Inr \<lparr>servers = max 1 \<lceil>q\<rceil>, scaled_avg = Some (float_round3 s),
                       processed = total summary, failed = 0\<rparr>))
     \<and> (\<forall>a q. avg_time = Some a \<and> \<not> float_le a (Fin 0) \<and>
               float_truediv a target = Inr q \<and> \<not> is_fin q \<longrightarrow>
           auto_scale avg_time target summary = Inl OverflowError \<or>
           auto_scale avg_time target summary = Inl ValueError)
     \<and> (\<forall>e. auto_scale avg_time target summary = Inr e \<longrightarrow> 1 \<le> servers e)
     \<and> auto_scale (Some (Fin 3)) (Fin (3 / 2)) summary =
         Inr \<lparr>servers = 2, scaled_avg = Some (Fin (3 / 2)), processed = total summary,
              failed = 0\<rparr>
     \<and> auto_scale None (Fin (3 / 2)) summary =
         Inr \<lparr>servers = 1, scaled_avg = None, processed = success summary,
              failed = failures summary\<rparr>"
proof -
  assume tgt: "float_lt (Fin 0) target"
  have nozero: "\<forall>a. \<exists>q. float_truediv a target = Inr q"
  proof
    fix a
    from tgt show "\<exists>q. float_truediv a target = Inr q"
      by (cases target; cases a) simp_all
  qed
  have unscaled: "(avg_time = None \<or> (\<exists>a. avg_time = Some a \<and> float_le a (Fin 0))) \<longrightarrow>
        auto_scale avg_time target summary =
          Inr \<lparr>servers = 1, scaled_avg = avg_time, processed = success summary,
               failed = failures summary\<rparr>"
    by (auto simp: auto_scale_def)
  have scaled: "\<forall>a q. avg_time = Some a \<and> \<not> float_le a (Fin 0) \<and>
               float_truediv a target = Inr (Fin q) \<longrightarrow>
           (\<exists>s. float_truediv a (int_to_float (max 1 \<lceil>q\<rceil>)) = Inr s \<and>
                auto_scale avg_time target summary =
                  Inr \<lparr>servers = max 1 \<lceil>q\<rceil>, scaled_avg = Some (float_round3 s),
                       processed = total summary, failed = 0\<rparr>)"
    using auto_scale_finite_quotient by blast
  have raises: "\<forall>a q. avg_time = Some a \<and> \<not> float_le a (Fin 0) \<and>
               float_truediv a target = Inr q \<and> \<not> is_fin q \<longrightarrow>
           auto_scale avg_time target summary = Inl OverflowError \<or>
           auto_scale avg_time target summary = Inl ValueError"
  proof (intro allI impI)
    fix a q
    assume h: "avg_time = Some a \<and> \<not> float_le a (Fin 0) \<and>
               float_truediv a target = Inr q \<and> \<not> is_fin q"
    then show "auto_scale avg_time target summary = Inl OverflowError \<or>
           auto_scale avg_time target summary = Inl ValueError"
      by (cases q) (simp_all add: auto_scale_def)
  qed
  have ge: "\<forall>e. auto_scale avg_time target summary = Inr e \<longrightarrow> 1 \<le> servers e"
    using auto_scale_servers_ge_one by blast
  have f2: "fl 2 = Fin 2" by code_simp
  have f32: "fl (3 / 2) = Fin (3 / 2)" by code_simp
  have ex1: "auto_scale (Some (Fin 3)) (Fin (3 / 2)) summary =
         Inr \<lparr>servers = 2, scaled_avg = Some (Fin (3 / 2)), processed = total summary,
              failed = 0\<rparr>"
    by (simp add: auto_scale_def Let_def int_to_float_def f2 f32 py_round_half_even_def)
  have ex2: "auto_scale None (Fin (3 / 2)) summary =
         Inr \<lparr>servers = 1, scaled_avg = None, processed = success summary,
              failed = failures summary\<rparr>"
    by (simp add: auto_scale_def)
  from unscaled nozero scaled raises ge ex1 ex2 show ?thesis by (intro conjI)
qed

theorem auto_scale_estimate_witness:
  "float_lt (Fin 0) (Fin (3 / 2)) \<and>
   auto_scale (Some (Fin 4)) (Fin (3 / 2)) summary0 =
     Inr \<lparr>servers = 3, scaled_avg = Some (Fin (6003298303284871 / 2 ^ 52)), processed = 10,
          failed = 0\<rparr>"
proof -
  have h: "float_lt (Fin 0) (Fin (3 / 2))" by simp
  have le: "\<not> float_le (Fin 4) (Fin 0)" by simp
  have q: "float_truediv (Fin 4) (Fin (3 / 2)) = Inr (Fin (6004799503160661 / 2 ^ 51))"
    by code_simp
  have c: "max 1 \<lceil>6004799503160661 / 2 ^ 51 :: rat\<rceil> = 3" by code_simp
  have s: "float_truediv (Fin 4) (int_to_float 3) = Inr (Fin (6004799503160661 / 2 ^ 52))"
    by code_simp
  have r: "float_round3 (Fin (6004799503160661 / 2 ^ 52)) = Fin (6003298303284871 / 2 ^ 52)"
    by code_simp
  from auto_scale_estimate [OF h, of "Some (Fin 4)" summary0] le q
  have "\<exists>s. float_truediv (Fin 4) (int_to_float (max 1 \<lceil>6004799503160661 / 2 ^ 51 :: rat\<rceil>)) = Inr s \<and>
            auto_scale (Some (Fin 4)) (Fin (3 / 2)) summary0 =
              Inr \<lparr>servers = max 1 \<lceil>6004799503160661 / 2 ^ 51 :: rat\<rceil>,
                   scaled_avg = Some (float_round3 s),
                   processed = total summary0, failed = 0\<rparr>"
    by blast
  then show ?thesis
    unfolding c using h s r by (auto simp: summary0_def)
qed

text \<open>
  Claim C10, as it is worded: for an average and a target above zero the average divided
  by the servers, in exact arithmetic, is at most the target, the servers being
  \<open>max(1, ceil(avg / target))\<close>. For the floats 0.017 and 0.001 the code returns 17
  servers, and 0.017 / 17 is above 0.001 in exact arithmetic; the ceiling of the exact
  quotient is 18.
\<close>

theorem auto_scale_exceeds_target_counterexample:
  "auto_scale (Some (Fin d0017)) (Fin d0001) summary0 =
     Inr \<lparr>servers = 17, scaled_avg = Some (Fin d0001), processed = 10, failed = 0\<rparr>
   \<and> fl (17 / 1000) = Fin d0017 \<and> fl (1 / 1000) = Fin d0001
   \<and> 0 < d0017 \<and> 0 < d0001
   \<and> d0001 < d0017 / 17
   \<and> max 1 \<lceil>d0017 / d0001\<rceil> = 18"
proof -
  have a: "0 < d0017" "0 < d0001" by (simp_all add: d0017_def d0001_def)
  have b: "d0001 < d0017 / 17" by (simp add: d0017_def d0001_def)
  have c: "max 1 \<lceil>d0017 / d0001\<rceil> = 18" by code_simp
  from auto_scale_017_001 floats_017_001 a b c show ?thesis by (intro conjI) simp_all
qed

text \<open>
  Claim C10, amended. For a finite average and a finite target above zero whose float
  quotient \<open>q\<close> is finite, \<open>auto_scale\<close> returns \<open>max(1, ceil(q))\<close> servers, which is at
  least \<open>q\<close>, and in exact arithmetic the average divided by the servers is at most the
  target divided by \<open>1 - 2^(-53)\<close>: it exceeds the target by no more than the rounding
  error of the float division.
\<close>

theorem auto_scale_within_target:
  "0 < a \<Longrightarrow> 0 < t \<Longrightarrow> fl (a / t) = Fin q \<Longrightarrow>
     (\<exists>e. auto_scale (Some (Fin a)) (Fin t) summary = Inr e
          \<and> servers e = max 1 \<lceil>q\<rceil>
          \<and> q \<le> of_int (servers e)
          \<and> a * (1 - 1 / 2 ^ 53) \<le> t * of_int (servers e))"
proof -
  assume a: "0 < a" and t: "0 < t" and q: "fl (a / t) = Fin q"
  let ?n = "max 1 \<lceil>q\<rceil>"
  have le: "\<not> float_le (Fin a) (Fin 0)" using a by simp
  have dv: "float_truediv (Fin a) (Fin t) = Inr (Fin q)" using t q by simp
  from auto_scale_finite_quotient [OF le dv, of summary]
  obtain e where e: "auto_scale (Some (Fin a)) (Fin t) summary = Inr e" "servers e = ?n"
    by auto
  have qn: "q \<le> of_int ?n"
  proof -
    have "q \<le> of_int \<lceil>q\<rceil>" by (rule le_of_int_ceiling)
    also have "\<dots> \<le> of_int ?n" by simp
    finally show ?thesis .
  qed
  have n1: "(1::rat) \<le> of_int ?n" by simp
  have bound: "a * (1 - 1 / 2 ^ 53) \<le> t * of_int ?n"
  proof (cases "a / t \<le> 1")
    case True
    then have "a \<le> t" using t by (simp add: pos_divide_le_eq)
    moreover have "a * (1 - 1 / 2 ^ 53) \<le> a" using a by (simp add: field_simps)
    moreover have "t \<le> t * of_int ?n" using t n1 by simp
    ultimately show ?thesis by linarith
  next
    case False
    then have x1: "1 \<le> a / t" by simp
    have qd: "q = dbl (a / t)" using q by (rule fl_Fin_dbl)
    have "a / t - a / t / 2 ^ 53 \<le> q" unfolding qd using x1 by (rule dbl_ge_one)
    then have "a / t * (1 - 1 / 2 ^ 53) \<le> of_int ?n"
      using qn by (simp add: algebra_simps)
    then have "t * (a / t * (1 - 1 / 2 ^ 53)) \<le> t * of_int ?n"
      using t by (simp only: mult_le_cancel_left_pos)
    moreover have "t * (a / t * (1 - 1 / 2 ^ 53)) = a * (1 - 1 / 2 ^ 53)"
      using t by simp
    ultimately show ?thesis by simp
  qed
  from e qn bound show ?thesis by auto
qed

theorem auto_scale_within_target_witness:
  "(0::rat) < 4 \<and> (0::rat) < 3 / 2 \<and> fl (4 / (3 / 2)) = Fin (6004799503160661 / 2 ^ 51)
   \<and> (\<exists>e. auto_scale (Some (Fin 4)) (Fin (3 / 2)) summary0 = Inr e
          \<and> servers e = 3
          \<and> 4 * (1 - 1 / 2 ^ 53) \<le> 3 / 2 * (rat_of_int (servers e)))"
proof -
  have h1: "(0::rat) < 4" and h2: "(0::rat) < 3 / 2" by simp_all
  have h3: "fl (4 / (3 / 2)) = Fin (6004799503160661 / 2 ^ 51)" by code_simp
  have c: "max 1 \<lceil>6004799503160661 / 2 ^ 51 :: rat\<rceil> = 3" by code_simp
  from auto_scale_within_target [OF h1 h2 h3, of summary0] c h1 h2 h3
  show ?thesis by auto
qed


section \<open>The load generator\<close>

lemma run_load_test_loop_fst:
  "fst (run_load_test_loop reqs remaining res waves) =
     res @ map (\<lambda>k. fetch_once (reqs k)) [length res ..< length res + nat remaining]"
proof (induction reqs remaining res waves rule: run_load_test_loop.induct)
  case (1 reqs remaining res waves)
  show ?case
  proof (cases "remaining > 0")
    case False
    then show ?thesis by (subst run_load_test_loop.simps) simp
  next
    case True
    let ?w = "min batch_size remaining"
    have w: "0 < ?w" "?w \<le> remaining" using True by (simp_all add: batch_size_def)
    have split: "[length res ..< length res + nat remaining] =
        [length res ..< length res + nat ?w] @ [length res + nat ?w ..< length res + nat ?w + nat (remaining - ?w)]"
    proof -
      have "nat remaining = nat ?w + nat (remaining - ?w)" using w by linarith
      then have "length res + nat remaining = (length res + nat ?w) + nat (remaining - ?w)"
        by linarith
      moreover have "length res \<le> length res + nat ?w" by simp
      ultimately show ?thesis
        using upt_add_eq_append [of "length res" "length res + nat ?w" "nat (remaining - ?w)"]
        by presburger
    qed
    from "1.IH" [OF True refl] True show ?thesis
      by (subst run_load_test_loop.simps) (simp add: Let_def split)
  qed
qed


lemma run_load_test_loop_snd:
  "snd (run_load_test_loop reqs remaining res waves) = waves @ spec_waves remaining"
proof (induction reqs remaining res waves rule: run_load_test_loop.induct)
  case (1 reqs remaining res waves)
  show ?case
  proof (cases "remaining > 0")
    case False
    then show ?thesis by (subst run_load_test_loop.simps, subst spec_waves.simps) simp
  next
    case True
    from "1.IH" [OF True refl] True show ?thesis
      by (subst run_load_test_loop.simps, subst spec_waves.simps) (simp add: Let_def batch_size_def)
  qed
qed

lemma spec_waves_sum: "sum_list (spec_waves remaining) = max 0 remaining"
proof (induction remaining rule: spec_waves.induct)
  case (1 remaining)
  show ?case
  proof (cases "remaining > 0")
    case False
    then show ?thesis by (subst spec_waves.simps) simp
  next
    case True
    from "1.IH" [OF True] True show ?thesis
      by (subst spec_waves.simps) simp
  qed
qed

lemma spec_waves_nth:
  "i < length (spec_waves remaining) \<Longrightarrow>
     spec_waves remaining ! i = min 300 (remaining - sum_list (take i (spec_waves remaining)))"
proof (induction remaining arbitrary: i rule: spec_waves.induct)
  case (1 remaining)
  show ?case
  proof (cases "remaining > 0")
    case False
    with "1.prems" show ?thesis by (subst (asm) spec_waves.simps) simp
  next
    case True
    let ?w = "min 300 remaining"
    have unf: "spec_waves remaining = ?w # spec_waves (remaining - ?w)"
      using True by (subst spec_waves.simps) simp
    show ?thesis
    proof (cases i)
      case 0
      then show ?thesis by (simp add: unf)
    next
      case (Suc j)
      with "1.prems" unf have "j < length (spec_waves (remaining - ?w))" by simp
      from "1.IH" [OF True this] Suc show ?thesis
        by (simp add: unf algebra_simps)
    qed
  qed
qed

lemma spec_waves_700: "spec_waves 700 = [300, 300, 100]"
  by code_simp

text \<open>
  Claim C4. For every count of users of at least one, \<open>run_load_test\<close> returns exactly
  that many samples. They are produced in successive waves, each of
  \<open>min(batch_size, remaining)\<close> requests with a batch size of 300, where \<open>remaining\<close> is
  the count less the sizes of the waves before; the sizes add up to the count.
  For 700 users the waves are 300, 300 and 100 and the samples are 700.
\<close>

theorem run_load_test_samples_and_waves:
  "1 \<le> users \<Longrightarrow>
     int (length (run_load_test reqs users)) = users
     \<and> run_load_test reqs users = map (\<lambda>k. fetch_once (reqs k)) [0 ..< nat users]
     \<and> sum_list (run_load_test_waves reqs users) = users
     \<and> (\<forall>i < length (run_load_test_waves reqs users).
           run_load_test_waves reqs users ! i =
             min batch_size (users - sum_list (take i (run_load_test_waves reqs users))))
     \<and> batch_size = 300
     \<and> run_load_test_waves reqs 700 = [300, 300, 100]
     \<and> length (run_load_test reqs 700) = 700"
proof -
  assume u: "1 \<le> users"
  have res: "run_load_test reqs n = map (\<lambda>k. fetch_once (reqs k)) [0 ..< nat n]" for n
    unfolding run_load_test_def by (simp add: run_load_test_loop_fst)
  have waves: "run_load_test_waves reqs n = spec_waves n" for n
    unfolding run_load_test_waves_def by (simp add: run_load_test_loop_snd)
  have "int (length (run_load_test reqs users)) = users"
    using u by (simp add: res)
  moreover have "sum_list (run_load_test_waves reqs users) = users"
    using u by (simp add: waves spec_waves_sum)
  moreover have "\<forall>i < length (run_load_test_waves reqs users).
           run_load_test_waves reqs users ! i =
             min batch_size (users - sum_list (take i (run_load_test_waves reqs users)))"
    by (simp add: waves spec_waves_nth batch_size_def)
  moreover have "run_load_test_waves reqs 700 = [300, 300, 100]"
    by (simp add: waves spec_waves_700)
  moreover have "length (run_load_test reqs 700) = 700"
    by (simp add: res)
  ultimately show ?thesis
    by (simp add: res batch_size_def)
qed

theorem run_load_test_samples_and_waves_witness:
  "(1::int) \<le> 5
   \<and> run_load_test reqs0 5 =
       [\<lparr>sample_status = StatusCode 200, sample_time = Some (1 / 8)\<rparr>,
        \<lparr>sample_status = StatusError, sample_time = None\<rparr>,
        \<lparr>sample_status = StatusCode 200, sample_time = Some (1 / 8)\<rparr>,
        \<lparr>sample_status = StatusError, sample_time = None\<rparr>,
        \<lparr>sample_status = StatusCode 200, sample_time = Some (1 / 8)\<rparr>]
   \<and> sum_list (run_load_test_waves reqs0 5) = 5"
proof -
  have h: "(1::int) \<le> 5" by simp
  have e: "map (\<lambda>k. fetch_once (reqs0 k)) [0 ..< nat 5] =
       [\<lparr>sample_status = StatusCode 200, sample_time = Some (1 / 8)\<rparr>,
        \<lparr>sample_status = StatusError, sample_time = None\<rparr>,
        \<lparr>sample_status = StatusCode 200, sample_time = Some (1 / 8)\<rparr>,
        \<lparr>sample_status = StatusError, sample_time = None\<rparr>,
        \<lparr>sample_status = StatusCode 200, sample_time = Some (1 / 8)\<rparr>]"
    by code_simp
  from run_load_test_samples_and_waves [OF h, of reqs0]
  have "run_load_test reqs0 5 = map (\<lambda>k. fetch_once (reqs0 k)) [0 ..< nat 5]"
    and "sum_list (run_load_test_waves reqs0 5) = 5"
    by blast+
  with h e show ?thesis by (simp only: simp_thms)
qed


section \<open>The summary of a load test\<close>

lemma p95_index_in_range:
  assumes "0 < n"
  shows "0 \<le> \<lfloor>19 / 20 * (of_nat n - 1 :: rat)\<rfloor>" and "\<lfloor>19 / 20 * (of_nat n - 1 :: rat)\<rfloor> < int n"
proof -
  have ge: "(0::rat) \<le> of_nat n - 1" using assms by (simp add: Suc_le_eq)
  then show "0 \<le> \<lfloor>19 / 20 * (of_nat n - 1 :: rat)\<rfloor>" by simp
  have "19 / 20 * (of_nat n - 1 :: rat) \<le> of_nat n - 1" using ge by simp
  also have "\<dots> < of_int (int n)" by simp
  finally show "\<lfloor>19 / 20 * (of_nat n - 1 :: rat)\<rfloor> < int n" by (simp add: floor_less_iff)
qed

lemma py_int_nonneg: "0 \<le> x \<Longrightarrow> py_int x = \<lfloor>x\<rfloor>"
  by (simp add: py_int_def)

lemma p95_getitem:
  assumes "ts \<noteq> []"
  shows "nat \<lfloor>19 / 20 * (of_nat (length ts) - 1 :: rat)\<rfloor> < length ts"
    and "py_getitem (sort ts) (py_int (19 / 20 * rat_of_int (int (length (sort ts)) - 1)))
           = Inr (sort ts ! nat \<lfloor>19 / 20 * (of_nat (length ts) - 1 :: rat)\<rfloor>)"
proof -
  define n where "n = length ts"
  define i where "i = nat \<lfloor>19 / 20 * (of_nat n - 1 :: rat)\<rfloor>"
  from assms have n0: "0 < n" by (simp add: n_def)
  have fl: "py_int (19 / 20 * (of_nat n - 1)) = \<lfloor>19 / 20 * (of_nat n - 1 :: rat)\<rfloor>"
    using n0 by (intro py_int_nonneg) (simp add: Suc_le_eq)
  have rng: "0 \<le> \<lfloor>19 / 20 * (of_nat n - 1 :: rat)\<rfloor>" "\<lfloor>19 / 20 * (of_nat n - 1 :: rat)\<rfloor> < int n"
    using p95_index_in_range [OF n0] by simp_all
  have len: "length (sort ts) = n" by (simp add: n_def)
  have conv: "rat_of_int (int n - 1) = of_nat n - 1" by simp
  have idx: "py_int (19 / 20 * rat_of_int (int n - 1)) = int i"
    unfolding conv fl i_def using rng by simp
  have lt: "i < n" using rng by (simp add: i_def)
  then have "py_getitem (sort ts) (int i) = Inr (sort ts ! i)"
    using n_def by (simp add: py_getitem_def)
  then have get: "py_getitem (sort ts) (py_int (19 / 20 * rat_of_int (int (length (sort ts)) - 1)))
                 = Inr (sort ts ! i)"
    unfolding len idx .
  from lt show "nat \<lfloor>19 / 20 * (of_nat (length ts) - 1 :: rat)\<rfloor> < length ts"
    by (simp add: i_def n_def)
  from get show "py_getitem (sort ts) (py_int (19 / 20 * rat_of_int (int (length (sort ts)) - 1)))
           = Inr (sort ts ! nat \<lfloor>19 / 20 * (of_nat (length ts) - 1 :: rat)\<rfloor>)"
    by (simp add: i_def n_def)
qed

lemma hist_keys_returns:
  "\<forall>t \<in> set ts. is_fin (fl (t * 10)) \<Longrightarrow> \<exists>ks. hist_keys ts = Inr ks"
proof (induction ts)
  case Nil
  then show ?case by simp
next
  case (Cons t ts)
  then obtain ks where ks: "hist_keys ts = Inr ks" by auto
  from Cons.prems have "is_fin (fl (t * 10))" by simp
  then obtain v where "fl (t * 10) = Fin v" by (cases "fl (t * 10)") simp_all
  then have "\<exists>k. hist_key t = Inr k" by (simp add: hist_key_def)
  with ks show ?case by auto
qed

lemma summarize_general:
  assumes "\<forall>t \<in> set (List.map_filter sample_time rs). is_fin (fl (t * 10))"
  shows "\<exists>S. summarize_load_results py_sum rs = Inr S \<and>
     (let ts = List.map_filter sample_time rs; n = length ts;
          i = nat \<lfloor>19 / 20 * (of_nat n - 1 :: rat)\<rfloor>
      in (ts = [] \<longrightarrow> avg S = None \<and> p95 S = None) \<and>
         (ts \<noteq> [] \<longrightarrow>
            (\<exists>m. float_truediv (py_sum ts) (int_to_float (int n)) = Inr m \<and>
                 avg S = Some (float_round3 m)) \<and>
            i < n \<and> p95 S = Some (sort ts ! i)))"
proof -
  define ts where "ts = List.map_filter sample_time rs"
  from assms obtain ks where ks: "hist_keys ts = Inr ks"
    using hist_keys_returns [of ts] by (auto simp: ts_def)
  show ?thesis
  proof (cases "ts = []")
    case True
    with ks show ?thesis
      by (simp add: summarize_load_results_def Let_def ts_def [symmetric])
  next
    case False
    then have "1 \<le> int (length ts)" by (cases ts) simp_all
    then obtain m where m: "float_truediv (py_sum ts) (int_to_float (int (length ts))) = Inr m"
      using float_truediv_int_returns by blast
    from False ks m p95_getitem [OF False] show ?thesis
      by (simp add: summarize_load_results_def Let_def ts_def [symmetric])
  qed
qed

lemma samples5_times: "List.map_filter sample_time samples5 = [1, 2, 3, 4, 5]"
  by (simp add: samples5_def List.map_filter_def)

lemma small_fin: "\<forall>t \<in> set [1, 2, 3, 4, 5 :: rat]. is_fin (fl (t * 10))"
  by code_simp

lemma sum_left_5: "sum_left [1, 2, 3, 4, 5] = Fin 15"
  by code_simp

lemma sum_neumaier_5: "sum_neumaier [1, 2, 3, 4, 5] = Fin 15"
  by code_simp

lemma mean_5: "float_truediv (Fin 15) (int_to_float 5) = Inr (Fin 3)"
  by code_simp

lemma round_3: "float_round3 (Fin 3) = Fin 3"
  by code_simp

lemma p95_5: "sort [1, 2, 3, 4, 5 :: rat] ! nat \<lfloor>19 / 20 * (of_nat (length [1, 2, 3, 4, 5 :: rat]) - 1 :: rat)\<rfloor> = 4"
  by code_simp

lemma samples_ms_times: "List.map_filter sample_time samples_ms = [d0005, d0006]"
  by (simp add: samples_ms_def List.map_filter_def)

lemma ms_fin: "\<forall>t \<in> set [d0005, d0006]. is_fin (fl (t * 10))"
  by code_simp

lemma sum_left_ms: "sum_left [d0005, d0006] = Fin d0011"
  by code_simp

lemma sum_neumaier_ms: "sum_neumaier [d0005, d0006] = Fin d0011"
proof -
  have a0: "float_add (Fin 0) (Fin d0005) = Fin d0005" by code_simp
  have a1: "float_add (Fin d0005) (Fin d0006) = Fin d0011" by code_simp
  have c: "\<not> float_le (float_abs (Fin d0006)) (float_abs (Fin d0005))"
    by (simp add: d0005_def d0006_def)
  have a2: "float_sub (Fin d0006) (Fin d0011) = Fin (d0006 - d0011)" by code_simp
  have a3: "float_add (Fin (d0006 - d0011)) (Fin d0005) = Fin (1 / 2 ^ 60)" by code_simp
  have a4: "float_add (Fin 0) (Fin (1 / 2 ^ 60)) = Fin (1 / 2 ^ 60)" by code_simp
  have a5: "float_add (Fin d0011) (Fin (1 / 2 ^ 60)) = Fin d0011" by code_simp
  have nz: "Fin (1 / 2 ^ 60) \<noteq> Fin 0" by simp
  show ?thesis
    unfolding sum_neumaier_def
    by (simp only: list.case neumaier.simps Let_def a0 a1 c a2 a3 a4 a5 nz is_fin.simps
          if_False if_True simp_thms)
qed

lemma mean_ms: "float_truediv (Fin d0011) (int_to_float 2) = Inr (Fin d00055)"
  by code_simp

lemma round_ms: "float_round3 (Fin d00055) = Fin d0005"
  by code_simp

lemma summarize_ms_avg:
  assumes "py_sum [d0005, d0006] = Fin d0011"
  shows "map_sum id avg (summarize_load_results py_sum samples_ms) = Inr (Some (Fin d0005))"
proof -
  have fin: "\<forall>t \<in> set (List.map_filter sample_time samples_ms). is_fin (fl (t * 10))"
    unfolding samples_ms_times by (rule ms_fin)
  from summarize_general [OF fin, of py_sum]
  obtain S where S: "summarize_load_results py_sum samples_ms = Inr S"
    and a: "\<exists>m. float_truediv (py_sum [d0005, d0006]) (int_to_float 2) = Inr m \<and>
                avg S = Some (float_round3 m)"
    unfolding Let_def samples_ms_times by auto
  from a have "avg S = Some (Fin d0005)"
    unfolding assms mean_ms by (auto simp: round_ms simp del: float_round3.simps)
  with S show ?thesis by simp
qed

text \<open>
  Claim C2, as the specification words it: \<open>avg\<close> is the arithmetic mean of the elapsed
  times rounded to 3 decimal places. For the floats 0.005 and 0.006 the code returns the
  float 0.005, with either summation: the float sum is 0.011, below the exact sum, and its
  half is below 0.0055. The exact mean of the two floats is nearer to 0.006, and more than
  half a thousandth away from 0.005.
\<close>

theorem summarize_avg_exact_mean_counterexample:
  "map_sum id avg (summarize_load_results sum_left samples_ms) = Inr (Some (Fin d0005))
   \<and> map_sum id avg (summarize_load_results sum_neumaier samples_ms) = Inr (Some (Fin d0005))
   \<and> List.map_filter sample_time samples_ms = [d0005, d0006]
   \<and> fl (5 / 1000) = Fin d0005 \<and> fl (6 / 1000) = Fin d0006
   \<and> \<bar>6 / 1000 - (d0005 + d0006) / 2\<bar> < 1 / 2000
   \<and> 1 / 2000 < \<bar>5 / 1000 - (d0005 + d0006) / 2\<bar>"
proof -
  have f5: "fl (5 / 1000) = Fin d0005" by code_simp
  have f6: "fl (6 / 1000) = Fin d0006" by code_simp
  have near: "\<bar>6 / 1000 - (d0005 + d0006) / 2\<bar> < 1 / 2000"
    by (simp add: d0005_def d0006_def)
  have far: "1 / 2000 < \<bar>5 / 1000 - (d0005 + d0006) / 2\<bar>"
    by (simp add: d0005_def d0006_def)
  from summarize_ms_avg [of sum_left, OF sum_left_ms]
    summarize_ms_avg [of sum_neumaier, OF sum_neumaier_ms]
    samples_ms_times f5 f6 near far
  show ?thesis by (intro conjI)
qed

text \<open>
  Claim C2, amended. Let every elapsed time \<open>t\<close> have \<open>t * 10\<close> within the float range
  (otherwise the histogram raises \<open>OverflowError\<close>). Then \<open>summarize_load_results\<close>
  returns, whatever summation \<open>sum\<close> is. With no timed sample, \<open>avg\<close> and \<open>p95\<close> are
  \<open>None\<close>. Otherwise \<open>avg\<close> is \<open>round(s / n, 3)\<close> in float arithmetic, \<open>s\<close> being the
  float sum of the \<open>n\<close> elapsed times that are not \<open>None\<close>: the float nearest to a multiple
  of a thousandth that is at most half a thousandth from the float quotient; and \<open>p95\<close>
  is the element at the zero-based index \<open>floor(0.95 * (n - 1))\<close> of these times sorted
  ascending. For the times 1, 2, 3, 4, 5 the average is 3.0 and \<open>p95\<close> is 4, with either
  summation.
\<close>

theorem summarize_avg_p95:
  "(\<forall>t \<in> set (List.map_filter sample_time rs). is_fin (fl (t * 10))) \<Longrightarrow>
     (\<exists>S. summarize_load_results py_sum rs = Inr S \<and>
        (let ts = List.map_filter sample_time rs; n = length ts;
             i = nat \<lfloor>19 / 20 * (of_nat n - 1 :: rat)\<rfloor>
         in (ts = [] \<longrightarrow> avg S = None \<and> p95 S = None) \<and>
            (ts \<noteq> [] \<longrightarrow>
               (\<exists>m. float_truediv (py_sum ts) (int_to_float (int n)) = Inr m \<and>
                    avg S = Some (float_round3 m)) \<and>
               i < n \<and> p95 S = Some (sort ts ! i))))
     \<and> (\<forall>x. \<exists>k::int. float_round3 (Fin x) = fl (of_int k / 1000) \<and>
                      \<bar>of_int k / 1000 - x\<bar> \<le> 1 / 2000)
     \<and> (\<exists>S. summarize_load_results sum_left samples5 = Inr S \<and>
             avg S = Some (Fin 3) \<and> p95 S = Some 4)
     \<and> (\<exists>S. summarize_load_results sum_neumaier samples5 = Inr S \<and>
             avg S = Some (Fin 3) \<and> p95 S = Some 4)"
proof -
  assume fin: "\<forall>t \<in> set (List.map_filter sample_time rs). is_fin (fl (t * 10))"
  have fin5: "\<forall>t \<in> set (List.map_filter sample_time samples5). is_fin (fl (t * 10))"
    unfolding samples5_times by (rule small_fin)
  have five: "\<exists>S. summarize_load_results py_sum' samples5 = Inr S \<and>
             avg S = Some (Fin 3) \<and> p95 S = Some 4"
    if sum: "py_sum' [1, 2, 3, 4, 5] = Fin 15" for py_sum'
  proof -
    from summarize_general [OF fin5, of py_sum']
    obtain S where S: "summarize_load_results py_sum' samples5 = Inr S"
      and a: "\<exists>m. float_truediv (py_sum' [1, 2, 3, 4, 5]) (int_to_float 5) = Inr m \<and>
                  avg S = Some (float_round3 m)"
      and p: "p95 S = Some (sort [1, 2, 3, 4, 5 :: rat] !
                nat \<lfloor>19 / 20 * (of_nat (length [1, 2, 3, 4, 5 :: rat]) - 1 :: rat)\<rfloor>)"
      unfolding Let_def samples5_times by auto
    from a have "avg S = Some (Fin 3)"
      unfolding sum mean_5 by (auto simp: round_3 simp del: float_round3.simps)
    moreover from p have "p95 S = Some 4" by (simp only: p95_5)
    ultimately show ?thesis using S by blast
  qed
  from summarize_general [OF fin, of py_sum] float_round3_near
    five [of sum_left, OF sum_left_5] five [of sum_neumaier, OF sum_neumaier_5]
  show ?thesis by (intro conjI allI)
qed

lemma samples_mixed_times: "List.map_filter sample_time samples_mixed = [1 / 4, 1 / 8]"
  by code_simp

theorem summarize_avg_p95_witness:
  "\<exists>S. summarize_load_results sum_left samples_mixed = Inr S \<and>
        avg S = Some (Fin (3386706919782613 / 2 ^ 54)) \<and> p95 S = Some (1 / 8)"
proof -
  have fin: "\<forall>t \<in> set (List.map_filter sample_time samples_mixed). is_fin (fl (t * 10))"
    unfolding samples_mixed_times by code_simp
  have ne: "[1 / 4, 1 / 8 :: rat] \<noteq> []" by simp
  have s: "sum_left [1 / 4, 1 / 8] = Fin (3 / 8)" by code_simp
  have m: "float_truediv (Fin (3 / 8)) (int_to_float (int (length [1 / 4, 1 / 8 :: rat]))) = Inr (Fin (3 / 16))"
    by code_simp
  have r: "float_round3 (Fin (3 / 16)) = Fin (3386706919782613 / 2 ^ 54)" by code_simp
  have p: "sort [1 / 4, 1 / 8 :: rat] !
             nat \<lfloor>19 / 20 * (of_nat (length [1 / 4, 1 / 8 :: rat]) - 1 :: rat)\<rfloor> = 1 / 8"
    by code_simp
  from summarize_avg_p95 [OF fin, of sum_left]
  obtain S where S: "summarize_load_results sum_left samples_mixed = Inr S"
    and a: "\<exists>m. float_truediv (sum_left [1 / 4, 1 / 8])
                  (int_to_float (int (length [1 / 4, 1 / 8 :: rat]))) = Inr m \<and>
                avg S = Some (float_round3 m)"
    and q: "p95 S = Some (sort [1 / 4, 1 / 8 :: rat] !
             nat \<lfloor>19 / 20 * (of_nat (length [1 / 4, 1 / 8 :: rat]) - 1 :: rat)\<rfloor>)"
    unfolding Let_def samples_mixed_times using ne by auto
  from a have "avg S = Some (Fin (3386706919782613 / 2 ^ 54))"
    unfolding s m by (auto simp: r simp del: float_round3.simps)
  moreover from q have "p95 S = Some (1 / 8)" by (simp only: p)
  ultimately show ?thesis using S by blast
qed


section \<open>The audit of a page\<close>

text \<open>
  Claim C9. When the request of \<open>fetch_page\<close> raises, the audit record has the status
  \<open>"Error"\<close>, an error string that is not \<open>None\<close> (the text of the exception, or
  \<open>"Fetch error"\<close> when that text is empty), no load time, and empty lists of security, SEO
  and accessibility findings.
\<close>

theorem analyze_page_fetch_error:
  "audit_get N u = Inl e \<Longrightarrow>
     analyze_page N u =
       \<lparr>url = u, status = Some StatusError, load_time = None, security = [], seo = [],
        accessibility = [], error = Some (if e = [] then ''Fetch error'' else e)\<rparr>
     \<and> error (analyze_page N u) \<noteq> None"
  by (simp add: analyze_page_def fetch_page_def)

theorem analyze_page_fetch_error_witness:
  "audit_get net_down ''http://a.com/'' = Inl ''Connection refused'' \<and>
   analyze_page net_down ''http://a.com/'' =
       \<lparr>url = ''http://a.com/'', status = Some StatusError, load_time = None, security = [],
        seo = [], accessibility = [], error = Some ''Connection refused''\<rparr>"
proof -
  have h: "audit_get net_down ''http://a.com/'' = Inl ''Connection refused''"
    by (simp add: net_down_def)
  from analyze_page_fetch_error [OF h] h show ?thesis by simp
qed

lemma fold_append_findings:
  "fold (\<lambda>h acc. if \<not> P h then acc @ [f h] else acc) hs acc0 =
     acc0 @ map f (filter (\<lambda>h. \<not> P h) hs)"
  by (induction hs arbitrary: acc0) simp_all

lemma security_checks_eq:
  "security_checks u r [] =
     (if startswith u ''http://'' then [not_https_finding] else []) @
     map missing_header_finding (filter (\<lambda>h. \<not> header_in h (headers r)) SECURITY_HEADERS)"
  unfolding security_checks_def fold_append_findings by simp

lemma analyze_page_security:
  "audit_get N u = Inr (r, dt) \<Longrightarrow> security (analyze_page N u) = security_checks u r []"
  by (simp add: analyze_page_def fetch_page_def)

lemma analyze_page_https_finding_iff:
  assumes "audit_get N u = Inr (r, dt)"
  shows "not_https_finding \<in> set (security (analyze_page N u)) \<longleftrightarrow> startswith u ''http://''"
proof -
  have "not_https_finding \<noteq> missing_header_finding h" for h
    by (simp add: missing_header_finding_def not_https_finding_def)
  then have "not_https_finding \<notin> missing_header_finding ` A" for A
    by blast
  then show ?thesis
    by (simp add: analyze_page_security [OF assms] security_checks_eq)
qed

text \<open>
  Claim C5. For a page that was fetched, the security list holds the finding
  \<open>"Site is not using HTTPS"\<close> exactly when the scheme of the URL is not HTTPS.
  \<open>analyze_page\<close> tests the prefix \<open>http://\<close> of the URL as it is written
  (\<open>analyze_page_https_finding_iff\<close>), so a URL whose scheme is written \<open>HTTP\<close> is
  fetched over plain HTTP and gets no such finding.
\<close>

theorem analyze_page_http_uppercase_scheme:
  "audit_get net_plain ''HTTP://a.com/'' = Inr (resp_plain, 1 / 4)
   \<and> startswith (py_lower ''HTTP://a.com/'') ''http://''
   \<and> ''Site is not using HTTPS'' \<notin> set (security (analyze_page net_plain ''HTTP://a.com/''))"
proof -
  have a: "audit_get net_plain ''HTTP://a.com/'' = Inr (resp_plain, 1 / 4)"
    by (simp add: net_plain_def)
  have b: "startswith (py_lower ''HTTP://a.com/'') ''http://''"
    by code_simp
  have c: "\<not> startswith ''HTTP://a.com/'' ''http://''"
    by (simp add: startswith_def)
  from analyze_page_https_finding_iff [OF a] c
  have "''Site is not using HTTPS'' \<notin> set (security (analyze_page net_plain ''HTTP://a.com/''))"
    by (simp add: not_https_finding_def)
  with a b show ?thesis by simp
qed

text \<open>
  Claim C6, as the specification words it: the test for a header compares names with
  their case, so that a response carrying the header under a differently-cased name still
  produces the finding. The response below carries all four headers in lower case, none
  under the name of the list, and its page over HTTPS has no finding at all.
\<close>

theorem missing_header_lookup_case_counterexample:
  "audit_get net_lower ''https://a.com/'' = Inr (resp_lower, 1 / 4)
   \<and> ''Content-Security-Policy'' \<notin> set (map fst (headers resp_lower))
   \<and> ''Missing security header: Content-Security-Policy''
        \<notin> set (security (analyze_page net_lower ''https://a.com/''))"
proof -
  have a: "audit_get net_lower ''https://a.com/'' = Inr (resp_lower, 1 / 4)"
    by (simp add: net_lower_def)
  have b: "''Content-Security-Policy'' \<notin> set (map fst (headers resp_lower))"
    by (simp add: resp_lower_def)
  have c: "security (analyze_page net_lower ''https://a.com/'') = []"
    by code_simp
  from a b c show ?thesis by simp
qed

text \<open>
  Claim C6, amended. For a page that was fetched, the security list is the finding of
  the scheme check, if any, followed by one finding for each header of the list
  Content-Security-Policy, Strict-Transport-Security, X-Frame-Options,
  X-Content-Type-Options that the response headers lack, in the order of the list; a header
  is lacking when no field of the response has its name, compared without regard to case.
  A page fetched from a URL starting with \<open>http://\<close> whose response lacks all four
  headers has exactly 5 findings, in this order.
\<close>

theorem analyze_page_missing_headers:
  "audit_get N u = Inr (r, dt) \<Longrightarrow>
     security (analyze_page N u) =
       (if startswith u ''http://'' then [''Site is not using HTTPS''] else []) @
       map (\<lambda>h. ''Missing security header: '' @ h)
         (filter (\<lambda>h. py_lower h \<notin> set (map (\<lambda>kv. py_lower (fst kv)) (headers r)))
            [''Content-Security-Policy'', ''Strict-Transport-Security'',
             ''X-Frame-Options'', ''X-Content-Type-Options''])
     \<and> (startswith u ''http://'' \<and>
          (\<forall>h \<in> set SECURITY_HEADERS.
             py_lower h \<notin> set (map (\<lambda>kv. py_lower (fst kv)) (headers r))) \<longrightarrow>
          security (analyze_page N u) =
            [''Site is not using HTTPS'',
             ''Missing security header: Content-Security-Policy'',
             ''Missing security header: Strict-Transport-Security'',
             ''Missing security header: X-Frame-Options'',
             ''Missing security header: X-Content-Type-Options''])"
proof -
  assume ok: "audit_get N u = Inr (r, dt)"
  have mh: "missing_header_finding = (\<lambda>h. ''Missing security header: '' @ h)"
    by (rule ext) (simp add: missing_header_finding_def)
  have hin: "(\<lambda>h. \<not> header_in h (headers r)) =
             (\<lambda>h. py_lower h \<notin> set (map (\<lambda>kv. py_lower (fst kv)) (headers r)))"
    by (rule ext) (simp add: header_in_def)
  have eq: "security (analyze_page N u) =
       (if startswith u ''http://'' then [''Site is not using HTTPS''] else []) @
       map (\<lambda>h. ''Missing security header: '' @ h)
         (filter (\<lambda>h. py_lower h \<notin> set (map (\<lambda>kv. py_lower (fst kv)) (headers r)))
            SECURITY_HEADERS)"
    unfolding analyze_page_security [OF ok] security_checks_eq mh hin not_https_finding_def ..
  have all: "security (analyze_page N u) =
            [''Site is not using HTTPS'',
             ''Missing security header: Content-Security-Policy'',
             ''Missing security header: Strict-Transport-Security'',
             ''Missing security header: X-Frame-Options'',
             ''Missing security header: X-Content-Type-Options'']"
    if "startswith u ''http://''"
      and "\<forall>h \<in> set SECURITY_HEADERS.
             py_lower h \<notin> set (map (\<lambda>kv. py_lower (fst kv)) (headers r))"
  proof -
    from that(2) have "filter (\<lambda>h. py_lower h \<notin> set (map (\<lambda>kv. py_lower (fst kv)) (headers r)))
            SECURITY_HEADERS = SECURITY_HEADERS"
      by (simp only: filter_True)
    with that(1) show ?thesis
      unfolding eq by (simp add: SECURITY_HEADERS_def)
  qed
  show ?thesis
  proof (intro conjI impI)
    show "security (analyze_page N u) =
       (if startswith u ''http://'' then [''Site is not using HTTPS''] else []) @
       map (\<lambda>h. ''Missing security header: '' @ h)
         (filter (\<lambda>h. py_lower h \<notin> set (map (\<lambda>kv. py_lower (fst kv)) (headers r)))
            [''Content-Security-Policy'', ''Strict-Transport-Security'',
             ''X-Frame-Options'', ''X-Content-Type-Options''])"
      using eq by (simp only: SECURITY_HEADERS_def)
  next
    assume "startswith u ''http://'' \<and>
          (\<forall>h \<in> set SECURITY_HEADERS.
             py_lower h \<notin> set (map (\<lambda>kv. py_lower (fst kv)) (headers r)))"
    then show "security (analyze_page N u) =
            [''Site is not using HTTPS'',
             ''Missing security header: Content-Security-Policy'',
             ''Missing security header: Strict-Transport-Security'',
             ''Missing security header: X-Frame-Options'',
             ''Missing security header: X-Content-Type-Options'']"
      using all by blast
  qed
qed

theorem analyze_page_missing_headers_witness:
  "audit_get net_plain ''http://a.com/'' = Inr (resp_plain, 1 / 4)
   \<and> security (analyze_page net_plain ''http://a.com/'') =
            [''Site is not using HTTPS'',
             ''Missing security header: Content-Security-Policy'',
             ''Missing security header: Strict-Transport-Security'',
             ''Missing security header: X-Frame-Options'',
             ''Missing security header: X-Content-Type-Options'']"
proof -
  have a: "audit_get net_plain ''http://a.com/'' = Inr (resp_plain, 1 / 4)"
    by (simp add: net_plain_def)
  have b: "startswith ''http://a.com/'' ''http://''"
    by (simp add: startswith_def)
  have c: "\<forall>h \<in> set SECURITY_HEADERS.
             py_lower h \<notin> set (map (\<lambda>kv. py_lower (fst kv)) (headers resp_plain))"
    by code_simp
  from analyze_page_missing_headers [OF a] a b c show ?thesis by blast
qed


section \<open>The crawler\<close>

lemma analyze_page_url: "url (analyze_page N u) = u"
  by (simp add: analyze_page_def Let_def split: prod.splits option.splits)

lemma enqueue_links_new:
  "l \<in> set (enqueue_links N start_url u vis hrefs q) \<Longrightarrow>
     l \<in> set q \<or>
     (netloc N l = netloc N start_url \<and> netloc N l \<noteq> None \<and> CHR ''#'' \<notin> set l)"
proof (induction hrefs arbitrary: q)
  case Nil
  then show ?case by simp
next
  case (Cons href hrefs)
  show ?case
  proof (cases "urljoin N u href")
    case None
    with Cons.prems show ?thesis by simp
  next
    case (Some joined)
    let ?link = "split_hash_first joined"
    have nofrag: "CHR ''#'' \<notin> set ?link"
      unfolding split_hash_first_def by (auto dest: set_takeWhileD)
    show ?thesis
    proof (cases "netloc N ?link")
      case None
      with Some Cons.prems show ?thesis by (simp add: Let_def)
    next
      case nl: (Some nl)
      show ?thesis
      proof (cases "netloc N start_url")
        case None
        with Some nl Cons.prems show ?thesis by (simp add: Let_def)
      next
        case ns: (Some ns)
        show ?thesis
        proof (cases "nl = ns \<and> ?link |\<notin>| vis \<and> ?link \<notin> set q")
          case True
          with Some nl ns Cons.prems
          have "l \<in> set (enqueue_links N start_url u vis hrefs (q @ [?link]))"
            by (simp add: Let_def)
          from Cons.IH [OF this] True nl ns nofrag show ?thesis by auto
        next
          case False
          with Some nl ns Cons.prems
          have "l \<in> set (enqueue_links N start_url u vis hrefs q)"
            by (auto simp: Let_def split: if_splits)
          from Cons.IH [OF this] show ?thesis .
        qed
      qed
    qed
  qed
qed

lemma crawl_trace_invariant:
  assumes "P s"
    and "\<And>t. P t \<Longrightarrow> crawl_continues max_pages t \<Longrightarrow> P (crawl_body N start_url t)"
  shows "\<forall>t \<in> set (crawl_trace N start_url max_pages s). P t"
  using assms
proof (induction N start_url max_pages s rule: crawl_trace.induct)
  case (1 N start_url max_pages s)
  show ?case
  proof (cases "crawl_continues max_pages s")
    case True
    have step: "P (crawl_body N start_url s)"
      using "1.prems" True by blast
    have "\<forall>t \<in> set (crawl_trace N start_url max_pages (crawl_body N start_url s)). P t"
      using "1.IH" [OF True step] "1.prems"(2) by blast
    with "1.prems"(1) True show ?thesis
      by (subst crawl_trace.simps) simp
  next
    case False
    with "1.prems" show ?thesis by (subst crawl_trace.simps) simp
  qed
qed

lemma crawl_trace_last:
  "last (crawl_trace N start_url max_pages s) = crawl_loop N start_url max_pages s"
proof (induction N start_url max_pages s rule: crawl_trace.induct)
  case (1 N start_url max_pages s)
  show ?case
  proof (cases "crawl_continues max_pages s")
    case True
    have ne: "crawl_trace N start_url max_pages (crawl_body N start_url s) \<noteq> []"
      by (subst crawl_trace.simps) simp
    from "1.IH" [OF True] True ne show ?thesis
      by (subst crawl_trace.simps, subst crawl_loop.simps) simp
  next
    case False
    then show ?thesis
      by (subst crawl_trace.simps, subst crawl_loop.simps) simp
  qed
qed

lemma crawl_loop_in_trace:
  "crawl_loop N start_url max_pages s \<in> set (crawl_trace N start_url max_pages s)"
proof -
  have "crawl_trace N start_url max_pages s \<noteq> []"
    by (subst crawl_trace.simps) simp
  then have "last (crawl_trace N start_url max_pages s) \<in> set (crawl_trace N start_url max_pages s)"
    by (rule last_in_set)
  then show ?thesis by (simp add: crawl_trace_last)
qed

lemma crawl_body_audits_once:
  assumes inv: "int (fcard (visited t)) \<le> max_pages \<and> distinct (map url (results t)) \<and>
                set (map url (results t)) = fset (visited t)"
    and cont: "crawl_continues max_pages t"
  shows "int (fcard (visited (crawl_body N start_url t))) \<le> max_pages \<and>
         distinct (map url (results (crawl_body N start_url t))) \<and>
         set (map url (results (crawl_body N start_url t))) = fset (visited (crawl_body N start_url t))"
proof (cases "queue t")
  case Nil
  with cont show ?thesis by (simp add: crawl_continues_def)
next
  case (Cons u rest)
  show ?thesis
  proof (cases "u |\<in>| visited t")
    case True
    with Cons inv show ?thesis by (simp add: crawl_body_def)
  next
    case False
    have vis: "visited (crawl_body N start_url t) = finsert u (visited t)"
      and res: "results (crawl_body N start_url t) = results t @ [analyze_page N u]"
      using Cons False by (simp_all add: crawl_body_def Let_def split: option.splits)
    have card: "int (fcard (finsert u (visited t))) \<le> max_pages"
      using False cont by (simp add: crawl_continues_def fcard_finsert_if)
    have fresh: "u \<notin> set (map url (results t))"
      using inv False by simp
    from inv card fresh show ?thesis
      unfolding vis res by (simp add: analyze_page_url)
  qed
qed

lemma crawl_body_same_netloc:
  assumes inv: "\<forall>u \<in> set (queue t) \<union> fset (visited t). netloc N u = netloc N start_url"
  shows "\<forall>u \<in> set (queue (crawl_body N start_url t)) \<union> fset (visited (crawl_body N start_url t)).
           netloc N u = netloc N start_url"
proof (cases "queue t")
  case Nil
  with inv show ?thesis by (simp add: crawl_body_def)
next
  case (Cons v rest)
  have rest: "\<forall>u \<in> set rest \<union> fset (finsert v (visited t)). netloc N u = netloc N start_url"
    using inv Cons by auto
  have enq: "\<forall>u \<in> set (enqueue_links N start_url v vis hrefs rest). netloc N u = netloc N start_url"
    for vis hrefs
    using enqueue_links_new [of _ N start_url v vis hrefs rest] rest by blast
  show ?thesis
    using Cons rest enq inv
    by (auto simp: crawl_body_def Let_def split: option.splits)
qed

lemma crawl_body_results_visited:
  assumes "set (map url (results t)) = fset (visited t)"
  shows "set (map url (results (crawl_body N start_url t))) = fset (visited (crawl_body N start_url t))"
  using assms
  by (auto simp: crawl_body_def Let_def analyze_page_url split: list.splits option.splits)

text \<open>
  Claim C1. For a page limit of at least one, \<open>crawl_site\<close> returns at most that many
  audit records and no URL occurs in two of them. At every head of the loop the visited
  set has at most \<open>max_pages\<close> members, and the URLs of the records so far are the visited
  set, each once.
\<close>

theorem crawl_site_bounded_distinct:
  "1 \<le> max_pages \<Longrightarrow>
     int (length (crawl_site N start_url max_pages)) \<le> max_pages
     \<and> distinct (map url (crawl_site N start_url max_pages))
     \<and> (\<forall>s \<in> set (crawl_trace N start_url max_pages (crawl_init start_url)).
           int (fcard (visited s)) \<le> max_pages \<and> distinct (map url (results s)) \<and>
           set (map url (results s)) = fset (visited s))
     \<and> crawl_site N start_url max_pages =
         results (last (crawl_trace N start_url max_pages (crawl_init start_url)))"
proof -
  assume mp: "1 \<le> max_pages"
  let ?I = "\<lambda>s. int (fcard (visited s)) \<le> max_pages \<and> distinct (map url (results s)) \<and>
                 set (map url (results s)) = fset (visited s)"
  let ?final = "crawl_loop N start_url max_pages (crawl_init start_url)"
  have init: "?I (crawl_init start_url)"
    using mp by (simp add: crawl_init_def fcard_fempty)
  have all: "\<forall>s \<in> set (crawl_trace N start_url max_pages (crawl_init start_url)). ?I s"
    using init by (rule crawl_trace_invariant) (rule crawl_body_audits_once)
  then have fin: "?I ?final"
    using crawl_loop_in_trace [of N start_url max_pages "crawl_init start_url"] by blast
  from fin have d: "distinct (map url (results ?final))"
    and e: "set (map url (results ?final)) = fset (visited ?final)"
    by blast+
  have "length (results ?final) = length (map url (results ?final))" by simp
  also have "\<dots> = card (set (map url (results ?final)))"
    using d by (rule distinct_card [symmetric])
  also have "\<dots> = card (fset (visited ?final))" by (simp only: e)
  also have "\<dots> = fcard (visited ?final)" by (simp add: fcard.rep_eq)
  finally have len: "int (length (results ?final)) \<le> max_pages"
    using fin by simp
  from len fin all show ?thesis
    by (simp add: crawl_site_def crawl_trace_last)
qed

theorem crawl_site_bounded_distinct_witness:
  "(1::int) \<le> 2
   \<and> int (length (crawl_site net0 ''http://a.com/'' 2)) \<le> 2
   \<and> distinct (map url (crawl_site net0 ''http://a.com/'' 2))
   \<and> map url (crawl_site net0 ''http://a.com/'' 2) = [''http://a.com/'', ''http://a.com/about'']"
proof -
  have h: "(1::int) \<le> 2" by simp
  have urls: "map url (crawl_site net0 ''http://a.com/'' 2) =
                [''http://a.com/'', ''http://a.com/about'']"
    by code_simp
  from crawl_site_bounded_distinct [OF h, of net0 "''http://a.com/''"] h urls
  show ?thesis by blast
qed

text \<open>
  Claim C8. Every link that \<open>crawl_site\<close> appends to the queue has the \<open>netloc\<close> of
  the start URL, hence its host name, which is a function of the \<open>netloc\<close>
  (\<open>hostname\<close> stands for any such function). So at every head of the loop each URL in
  the queue or the visited set, and each URL of an audit record returned, has the
  \<open>netloc\<close> and the host name of the start URL.
\<close>

theorem crawl_site_same_host:
  "(\<forall>s \<in> set (crawl_trace N start_url max_pages (crawl_init start_url)).
      \<forall>v \<in> set (queue s) \<union> fset (visited s).
        netloc N v = netloc N start_url \<and>
        hostname (netloc N v) = hostname (netloc N start_url))
   \<and> (\<forall>link \<in> set (enqueue_links N start_url u vis hrefs q) - set q.
        netloc N link = netloc N start_url \<and> netloc N link \<noteq> None)
   \<and> (\<forall>r \<in> set (crawl_site N start_url max_pages).
        netloc N (url r) = netloc N start_url \<and>
        hostname (netloc N (url r)) = hostname (netloc N start_url))"
proof -
  let ?I = "\<lambda>s. (\<forall>v \<in> set (queue s) \<union> fset (visited s). netloc N v = netloc N start_url) \<and>
                 set (map url (results s)) = fset (visited s)"
  let ?final = "crawl_loop N start_url max_pages (crawl_init start_url)"
  have init: "?I (crawl_init start_url)"
    by (simp add: crawl_init_def)
  have step: "?I (crawl_body N start_url t)" if "?I t" for t
    using that crawl_body_same_netloc [of t N start_url] crawl_body_results_visited [of t N start_url]
    by blast
  have all: "\<forall>s \<in> set (crawl_trace N start_url max_pages (crawl_init start_url)). ?I s"
    using init by (rule crawl_trace_invariant) (rule step)
  then have fin: "?I ?final"
    using crawl_loop_in_trace [of N start_url max_pages "crawl_init start_url"] by blast
  have res: "\<forall>r \<in> set (crawl_site N start_url max_pages). netloc N (url r) = netloc N start_url"
  proof
    fix r
    assume "r \<in> set (crawl_site N start_url max_pages)"
    then have "url r \<in> set (map url (results ?final))"
      by (simp add: crawl_site_def)
    with fin show "netloc N (url r) = netloc N start_url" by blast
  qed
  have enq: "\<forall>link \<in> set (enqueue_links N start_url u vis hrefs q) - set q.
        netloc N link = netloc N start_url \<and> netloc N link \<noteq> None"
    using enqueue_links_new [of _ N start_url u vis hrefs q] by blast
  have all': "\<forall>s \<in> set (crawl_trace N start_url max_pages (crawl_init start_url)).
      \<forall>v \<in> set (queue s) \<union> fset (visited s).
        netloc N v = netloc N start_url \<and>
        hostname (netloc N v) = hostname (netloc N start_url)"
    using all by simp
  have res': "\<forall>r \<in> set (crawl_site N start_url max_pages).
        netloc N (url r) = netloc N start_url \<and>
        hostname (netloc N (url r)) = hostname (netloc N start_url)"
    using res by simp
  from all' enq res' show ?thesis by (intro conjI)
qed

theorem crawl_site_same_host_witness:
  "map url (crawl_site net0 ''http://a.com/'' 5) = [''http://a.com/'', ''http://a.com/about'']
   \<and> netloc net0 ''http://a.com/about'' = netloc net0 ''http://a.com/''
   \<and> netloc net0 ''http://a.com/'' = Some ''a.com''
   \<and> ''http://b.com/x'' \<in> set (anchor_hrefs page_home)"
proof -
  have nl: "netloc net0 ''http://a.com/'' = Some ''a.com''" by code_simp
  have urls: "map url (crawl_site net0 ''http://a.com/'' 5) =
                [''http://a.com/'', ''http://a.com/about'']"
    by code_simp
  have ext: "''http://b.com/x'' \<in> set (anchor_hrefs page_home)"
    by (simp add: page_home_def)
  from crawl_site_same_host [where N = net0 and start_url = "''http://a.com/''" and max_pages = 5]
  have all: "\<forall>r \<in> set (crawl_site net0 ''http://a.com/'' 5).
          netloc net0 (url r) = netloc net0 ''http://a.com/''"
    by blast
  have "''http://a.com/about'' \<in> set (map url (crawl_site net0 ''http://a.com/'' 5))"
    unfolding urls by simp
  then obtain r where "r \<in> set (crawl_site net0 ''http://a.com/'' 5)"
    and "url r = ''http://a.com/about''"
    by auto
  with all have "netloc net0 ''http://a.com/about'' = netloc net0 ''http://a.com/''"
    by metis
  with nl urls ext show ?thesis by (intro conjI)
qed

text \<open>
  Claim C7. No member of the visited set, the start URL included, contains a \<open>#\<close>.
  The links are cut at their first \<open>#\<close> before they are queued; the start URL is queued
  as it is given. Started at \<open>http://a.com/#top\<close>, the crawl puts this URL in the visited
  set and later audits the same page again as \<open>http://a.com/\<close>.
\<close>

theorem crawl_site_start_url_fragment:
  "CHR ''#'' \<in> set ''http://a.com/#top''
   \<and> ''http://a.com/#top'' |\<in>|
        visited (crawl_loop net0 ''http://a.com/#top'' 3 (crawl_init ''http://a.com/#top''))
   \<and> map url (crawl_site net0 ''http://a.com/#top'' 3) =
        [''http://a.com/#top'', ''http://a.com/about'', ''http://a.com/'']"
proof -
  have a: "CHR ''#'' \<in> set ''http://a.com/#top''" by simp
  have b: "''http://a.com/#top'' |\<in>|
        visited (crawl_loop net0 ''http://a.com/#top'' 3 (crawl_init ''http://a.com/#top''))"
    by code_simp
  have c: "map url (crawl_site net0 ''http://a.com/#top'' 3) =
        [''http://a.com/#top'', ''http://a.com/about'', ''http://a.com/'']"
    by code_simp
  from a b c show ?thesis by (intro conjI)
qed

text \<open>What holds of the fragments: every URL in the queue or visited, other than the start
  URL, has none.\<close>

lemma crawl_body_fragment_free:
  assumes inv: "\<forall>v \<in> set (queue t) \<union> fset (visited t). v = start_url \<or> CHR ''#'' \<notin> set v"
  shows "\<forall>v \<in> set (queue (crawl_body N start_url t)) \<union> fset (visited (crawl_body N start_url t)).
           v = start_url \<or> CHR ''#'' \<notin> set v"
proof (cases "queue t")
  case Nil
  with inv show ?thesis by (simp add: crawl_body_def)
next
  case (Cons w rest)
  have rest: "\<forall>v \<in> set rest \<union> fset (finsert w (visited t)). v = start_url \<or> CHR ''#'' \<notin> set v"
    using inv Cons by auto
  have enq: "\<forall>v \<in> set (enqueue_links N start_url w vis hrefs rest).
               v = start_url \<or> CHR ''#'' \<notin> set v"
    for vis hrefs
    using enqueue_links_new [of _ N start_url w vis hrefs rest] rest by blast
  show ?thesis
    using Cons rest enq inv
    by (auto simp: crawl_body_def Let_def split: option.splits)
qed

lemma crawl_trace_fragment_free:
  "\<forall>s \<in> set (crawl_trace N start_url max_pages (crawl_init start_url)).
     \<forall>v \<in> set (queue s) \<union> fset (visited s). v = start_url \<or> CHR ''#'' \<notin> set v"
proof (rule crawl_trace_invariant)
  show "\<forall>v \<in> set (queue (crawl_init start_url)) \<union> fset (visited (crawl_init start_url)).
          v = start_url \<or> CHR ''#'' \<notin> set v"
    by (simp add: crawl_init_def)
next
  fix t :: crawl_state
  assume "\<forall>v \<in> set (queue t) \<union> fset (visited t). v = start_url \<or> CHR ''#'' \<notin> set v"
  then show "\<forall>v \<in> set (queue (crawl_body N start_url t)) \<union> fset (visited (crawl_body N start_url t)).
          v = start_url \<or> CHR ''#'' \<notin> set v"
    by (rule crawl_body_fragment_free)
qed

end
